theory Spec2Isabelle
  imports Main
begin

section \<open>JavaScript strings and the built-ins the view calls\<close>

text \<open>
  A JavaScript string is a sequence of UTF-16 code units. A code unit is modelled as a
  natural number (below 65536 in every string the engine can build); string literals of
  the source are written \<open>js ''...''\<close>.
\<close>

type_synonym jsstring = "nat list"

definition js :: "string \<Rightarrow> jsstring" where
  "js s = map of_char s"

datatype error = URIError | InvalidCharacterError

text \<open>\<open>/\<bslash>s/\<close> and \<open>String.prototype.trim\<close>: the WhiteSpace and LineTerminator code points.\<close>

definition isWhiteSpace :: "nat \<Rightarrow> bool" where
  "isWhiteSpace c \<longleftrightarrow>
     c = 9 \<or> c = 10 \<or> c = 11 \<or> c = 12 \<or> c = 13 \<or> c = 32 \<or> c = 160 \<or> c = 5760 \<or>
     (8192 \<le> c \<and> c \<le> 8202) \<or> c = 8232 \<or> c = 8233 \<or> c = 8239 \<or> c = 8287 \<or>
     c = 12288 \<or> c = 65279"

definition trimStart :: "jsstring \<Rightarrow> jsstring" where
  "trimStart s = dropWhile isWhiteSpace s"

definition trimEnd :: "jsstring \<Rightarrow> jsstring" where
  "trimEnd s = rev (dropWhile isWhiteSpace (rev s))"

definition trim :: "jsstring \<Rightarrow> jsstring" where
  "trim s = trimEnd (trimStart s)"

definition isDigit :: "nat \<Rightarrow> bool" where
  "isDigit c \<longleftrightarrow> 48 \<le> c \<and> c \<le> 57"

definition isAlpha :: "nat \<Rightarrow> bool" where
  "isAlpha c \<longleftrightarrow> (65 \<le> c \<and> c \<le> 90) \<or> (97 \<le> c \<and> c \<le> 122)"

definition isHex :: "nat \<Rightarrow> bool" where
  "isHex c \<longleftrightarrow> isDigit c \<or> (65 \<le> c \<and> c \<le> 70) \<or> (97 \<le> c \<and> c \<le> 102)"

definition hexVal :: "nat \<Rightarrow> nat" where
  "hexVal c = (if isDigit c then c - 48 else if c \<le> 70 then c - 55 else c - 87)"

text \<open>An upper-case hexadecimal digit, as \<open>encodeURIComponent\<close> and \<open>escape\<close> print it.\<close>

definition hexDigit :: "nat \<Rightarrow> nat" where
  "hexDigit n = (if n < 10 then 48 + n else 55 + n)"

definition pctByte :: "nat \<Rightarrow> jsstring" where
  "pctByte b = [37, hexDigit (b div 16), hexDigit (b mod 16)]"

subsection \<open>UTF-8 and UTF-16\<close>

definition utf8Encode :: "nat \<Rightarrow> nat list" where
  "utf8Encode cp =
     (if cp < 128 then [cp]
      else if cp < 2048 then [192 + cp div 64, 128 + cp mod 64]
      else if cp < 65536 then [224 + cp div 4096, 128 + (cp div 64) mod 64, 128 + cp mod 64]
      else [240 + cp div 262144, 128 + (cp div 4096) mod 64, 128 + (cp div 64) mod 64,
            128 + cp mod 64])"

definition isCont :: "nat \<Rightarrow> bool" where
  "isCont b \<longleftrightarrow> 128 \<le> b \<and> b < 192"

text \<open>
  The code point of a well-formed UTF-8 sequence: no overlong form, no surrogate, nothing
  above U+10FFFF. \<open>decodeURIComponent\<close> throws on every other octet sequence.
\<close>

definition utf8Decode :: "nat list \<Rightarrow> nat option" where
  "utf8Decode bs =
     (case bs of
        [a, b] \<Rightarrow>
          (let cp = (a - 192) * 64 + (b - 128)
           in if isCont b \<and> 128 \<le> cp then Some cp else None)
      | [a, b, c] \<Rightarrow>
          (let cp = (a - 224) * 4096 + (b - 128) * 64 + (c - 128)
           in if isCont b \<and> isCont c \<and> 2048 \<le> cp \<and> \<not> (55296 \<le> cp \<and> cp \<le> 57343)
              then Some cp else None)
      | [a, b, c, d] \<Rightarrow>
          (let cp = (a - 240) * 262144 + (b - 128) * 4096 + (c - 128) * 64 + (d - 128)
           in if isCont b \<and> isCont c \<and> isCont d \<and> 65536 \<le> cp \<and> cp \<le> 1114111
              then Some cp else None)
      | _ \<Rightarrow> None)"

definition utf16Encode :: "nat \<Rightarrow> jsstring" where
  "utf16Encode cp =
     (if cp < 65536 then [cp]
      else [55296 + (cp - 65536) div 1024, 56320 + (cp - 65536) mod 1024])"

definition isLeadSurrogate :: "nat \<Rightarrow> bool" where
  "isLeadSurrogate c \<longleftrightarrow> 55296 \<le> c \<and> c \<le> 56319"

definition isTrailSurrogate :: "nat \<Rightarrow> bool" where
  "isTrailSurrogate c \<longleftrightarrow> 56320 \<le> c \<and> c \<le> 57343"

subsection \<open>encodeURIComponent\<close>

text \<open>The characters \<open>encodeURIComponent\<close> leaves alone: letters, digits and \<open>-_.!~*'()\<close>.\<close>

definition uriUnreserved :: "nat \<Rightarrow> bool" where
  "uriUnreserved c \<longleftrightarrow>
     isAlpha c \<or> isDigit c \<or> c = 45 \<or> c = 95 \<or> c = 46 \<or> c = 33 \<or> c = 126 \<or> c = 42 \<or>
     c = 39 \<or> c = 40 \<or> c = 41"

definition pctEncode :: "nat \<Rightarrow> jsstring" where
  "pctEncode cp = concat (map pctByte (utf8Encode cp))"

definition prepend :: "jsstring \<Rightarrow> error + jsstring \<Rightarrow> error + jsstring" where
  "prepend xs r = (case r of Inl e \<Rightarrow> Inl e | Inr ys \<Rightarrow> Inr (xs @ ys))"

text \<open>
  \<open>encodeURIComponent\<close> walks the code units; an unreserved unit is copied, any other code
  point is written as the percent-escaped octets of its UTF-8 form, and a surrogate
  without its partner throws URIError.
\<close>

fun encodeURIComponent :: "jsstring \<Rightarrow> error + jsstring" where
  "encodeURIComponent [] = Inr []"
| "encodeURIComponent (c # cs) =
     (if uriUnreserved c then prepend [c] (encodeURIComponent cs)
      else if isTrailSurrogate c then Inl URIError
      else if isLeadSurrogate c then
        (case cs of
           [] \<Rightarrow> Inl URIError
         | d # ds \<Rightarrow>
             if isTrailSurrogate d
             then prepend (pctEncode ((c - 55296) * 1024 + (d - 56320) + 65536))
                    (encodeURIComponent ds)
             else Inl URIError)
      else prepend (pctEncode c) (encodeURIComponent cs))"

subsection \<open>decodeURIComponent\<close>

text \<open>\<open>takeOctets n s\<close> reads \<open>n\<close> escapes \<open>%XX\<close> from the front of \<open>s\<close>.\<close>

fun takeOctets :: "nat \<Rightarrow> jsstring \<Rightarrow> (nat list \<times> jsstring) option" where
  "takeOctets 0 s = Some ([], s)"
| "takeOctets (Suc n) (p # h # l # r) =
     (if p = 37 \<and> isHex h \<and> isHex l
      then (case takeOctets n r of
              None \<Rightarrow> None
            | Some (bs, r') \<Rightarrow> Some ((hexVal h * 16 + hexVal l) # bs, r'))
      else None)"
| "takeOctets (Suc n) _ = None"

text \<open>The number of octets the leading octet announces; 0 for an octet that cannot lead.\<close>

definition utf8Length :: "nat \<Rightarrow> nat" where
  "utf8Length b =
     (if b < 128 then 1 else if b < 192 then 0 else if b < 224 then 2
      else if b < 240 then 3 else if b < 248 then 4 else 0)"

lemma takeOctets_length: "takeOctets n s = Some (bs, r) \<Longrightarrow> length r \<le> length s"
proof (induction n s arbitrary: bs r rule: takeOctets.induct)
  case (1 s)
  then show ?case by simp
next
  case (2 n p h l r0)
  then show ?case
    by (auto split: if_splits option.splits prod.splits)
qed simp_all

function decodeURIComponent :: "jsstring \<Rightarrow> error + jsstring" where
  "decodeURIComponent [] = Inr []"
| "decodeURIComponent (c # cs) =
     (if c \<noteq> 37 then prepend [c] (decodeURIComponent cs)
      else (case cs of
              h # l # r \<Rightarrow>
                if isHex h \<and> isHex l then
                  (let b = hexVal h * 16 + hexVal l; n = utf8Length b
                   in if n = 0 then Inl URIError
                      else if n = 1 then prepend [b] (decodeURIComponent r)
                      else (case takeOctets (n - 1) r of
                              None \<Rightarrow> Inl URIError
                            | Some (bs, r') \<Rightarrow>
                                (case utf8Decode (b # bs) of
                                   None \<Rightarrow> Inl URIError
                                 | Some cp \<Rightarrow> prepend (utf16Encode cp) (decodeURIComponent r'))))
                else Inl URIError
            | _ \<Rightarrow> Inl URIError))"
  by pat_completeness auto
termination
proof (relation "measure length")
  show "wf (measure length)" by simp
next
  fix c :: nat and cs :: jsstring
  show "(cs, c # cs) \<in> measure length" by simp
next
  fix c :: nat and cs x21 x22 x31 x32 :: "nat list"
  fix h l :: nat
  assume "cs = h # x22" "x22 = l # x32"
  then show "(x32, c # cs) \<in> measure length" by simp
next
  fix c :: nat and cs x22 x32 bs r' :: "nat list" and h l b n :: nat and x2 :: "nat list \<times> nat list"
  assume a: "cs = h # x22" "x22 = l # x32" "takeOctets (n - 1) x32 = Some x2" "(bs, r') = x2"
  then have "length r' \<le> length x32"
    using takeOctets_length [of "n - 1" x32 bs r'] by simp
  with a show "(r', c # cs) \<in> measure length" by simp
qed

subsection \<open>escape and unescape\<close>

text \<open>\<open>escape\<close> copies letters, digits and \<open>@*_+-./\<close>; any other unit becomes \<open>%XX\<close>, or
  \<open>%uXXXX\<close> from 256 on.\<close>

definition escapeUnreserved :: "nat \<Rightarrow> bool" where
  "escapeUnreserved c \<longleftrightarrow>
     isAlpha c \<or> isDigit c \<or> c = 64 \<or> c = 42 \<or> c = 95 \<or> c = 43 \<or> c = 45 \<or> c = 46 \<or> c = 47"

definition escapeUnit :: "nat \<Rightarrow> jsstring" where
  "escapeUnit c =
     (if escapeUnreserved c then [c]
      else if c < 256 then pctByte c
      else [37, 117, hexDigit (c div 4096), hexDigit ((c div 256) mod 16),
            hexDigit ((c div 16) mod 16), hexDigit (c mod 16)])"

definition escape :: "jsstring \<Rightarrow> jsstring" where
  "escape s = concat (map escapeUnit s)"

text \<open>\<open>unescape\<close> replaces \<open>%uXXXX\<close> and \<open>%XX\<close> by the unit they name and copies the rest,
  a stray \<open>%\<close> included.\<close>

fun unescape :: "jsstring \<Rightarrow> jsstring" where
  "unescape [] = []"
| "unescape (c # cs) =
     (if c = 37 \<and> 5 \<le> length cs \<and> cs ! 0 = 117 \<and> isHex (cs ! 1) \<and> isHex (cs ! 2) \<and>
         isHex (cs ! 3) \<and> isHex (cs ! 4)
      then (hexVal (cs ! 1) * 4096 + hexVal (cs ! 2) * 256 + hexVal (cs ! 3) * 16 + hexVal (cs ! 4))
             # unescape (drop 5 cs)
      else if c = 37 \<and> 2 \<le> length cs \<and> isHex (cs ! 0) \<and> isHex (cs ! 1)
      then (hexVal (cs ! 0) * 16 + hexVal (cs ! 1)) # unescape (drop 2 cs)
      else c # unescape cs)"

subsection \<open>btoa and atob\<close>

definition b64 :: "nat \<Rightarrow> nat" where
  "b64 n =
     (if n < 26 then 65 + n else if n < 52 then 71 + n else if n < 62 then n - 4
      else if n = 62 then 43 else 47)"

definition isB64 :: "nat \<Rightarrow> bool" where
  "isB64 c \<longleftrightarrow> isAlpha c \<or> isDigit c \<or> c = 43 \<or> c = 47"

definition b64Val :: "nat \<Rightarrow> nat" where
  "b64Val c =
     (if 65 \<le> c \<and> c \<le> 90 then c - 65 else if 97 \<le> c \<and> c \<le> 122 then c - 71
      else if isDigit c then c + 4 else if c = 43 then 62 else 63)"

fun base64Encode :: "nat list \<Rightarrow> jsstring" where
  "base64Encode (a # b # c # r) =
     [b64 (a div 4), b64 ((a mod 4) * 16 + b div 16), b64 ((b mod 16) * 4 + c div 64),
      b64 (c mod 64)] @ base64Encode r"
| "base64Encode [a, b] =
     [b64 (a div 4), b64 ((a mod 4) * 16 + b div 16), b64 ((b mod 16) * 4), 61]"
| "base64Encode [a] = [b64 (a div 4), b64 ((a mod 4) * 16), 61, 61]"
| "base64Encode [] = []"

text \<open>\<open>btoa\<close> throws when a unit of its argument is not a byte.\<close>

definition btoa :: "jsstring \<Rightarrow> error + jsstring" where
  "btoa s = (if list_all (\<lambda>c. c < 256) s then Inr (base64Encode s) else Inl InvalidCharacterError)"

text \<open>The sextets of a base64 text, four to three octets; a rest of two or three sextets
  gives one or two octets and its spare bits are dropped.\<close>

fun base64Decode :: "nat list \<Rightarrow> nat list" where
  "base64Decode (a # b # c # d # r) =
     [a * 4 + b div 16, (b mod 16) * 16 + c div 4, (c mod 4) * 64 + d] @ base64Decode r"
| "base64Decode [a, b, c] = [a * 4 + b div 16, (b mod 16) * 16 + c div 4]"
| "base64Decode [a, b] = [a * 4 + b div 16]"
| "base64Decode _ = []"

definition isAsciiWhitespace :: "nat \<Rightarrow> bool" where
  "isAsciiWhitespace c \<longleftrightarrow> c = 9 \<or> c = 10 \<or> c = 12 \<or> c = 13 \<or> c = 32"

definition stripPadding :: "jsstring \<Rightarrow> jsstring" where
  "stripPadding d =
     (if length d mod 4 = 0 \<and> d \<noteq> [] \<and> last d = 61
      then (if butlast d \<noteq> [] \<and> last (butlast d) = 61 then butlast (butlast d) else butlast d)
      else d)"

text \<open>\<open>atob\<close>, the forgiving base64 decoder of the HTML standard: ASCII whitespace is
  dropped, one or two padding signs are removed from a text whose length is a multiple of
  four, and a length of 1 modulo 4 or a character outside the alphabet throws.\<close>

definition atob :: "jsstring \<Rightarrow> error + jsstring" where
  "atob s =
     (let d = stripPadding (filter (\<lambda>c. \<not> isAsciiWhitespace c) s)
      in if length d mod 4 = 1 \<or> \<not> list_all isB64 d then Inl InvalidCharacterError
         else Inr (base64Decode (map b64Val d)))"

subsection \<open>Numbers\<close>

text \<open>
  A Number is a double: 53 significant bits and an exponent up to 1023. The Numbers the
  view meets are natural numbers (the pages the viewer reports, the default page 1) and
  what \<open>parseInt\<close> makes of a run of decimal digits, which is a natural number or
  \<open>Infinity\<close>. A natural number \<open>n\<close> stands for the Number \<open>toNumber n\<close>, as a numeric literal
  does; it is a Number itself when \<open>toNumber n = Finite n\<close>, which holds for every natural
  number up to \<open>2 ^ 53\<close>.
\<close>

datatype number = Finite nat | Infinity

text \<open>The number of binary digits.\<close>

fun bitLength :: "nat \<Rightarrow> nat" where
  "bitLength n = (if n = 0 then 0 else Suc (bitLength (n div 2)))"

declare bitLength.simps [simp del]

text \<open>Rounding to 53 significant bits: to the nearest, and to the even one of two that
  are equally near.\<close>

definition roundToDouble :: "nat \<Rightarrow> nat" where
  "roundToDouble n =
     (if bitLength n \<le> 53 then n
      else (let ulp = 2 ^ (bitLength n - 53); q = n div ulp; r = n mod ulp
            in if ulp < 2 * r \<or> (ulp = 2 * r \<and> odd q) then (q + 1) * ulp else q * ulp))"

text \<open>The Number of a natural number: the rounded value, and \<open>Infinity\<close> when that has
  left the range of the exponent (from \<open>2 ^ 1024\<close> on).\<close>

definition toNumber :: "nat \<Rightarrow> number" where
  "toNumber n =
     (if bitLength (roundToDouble n) \<le> 1024 then Finite (roundToDouble n) else Infinity)"

fun decimalDigits :: "nat \<Rightarrow> jsstring" where
  "decimalDigits n = (if n < 10 then [48 + n] else decimalDigits (n div 10) @ [48 + n mod 10])"

declare decimalDigits.simps [simp del]

text \<open>\<open>parseInt(ds, 10)\<close> is applied by the source to a non-empty run of decimal digits
  only: the Number of the integer the digits write, all digits read.\<close>

definition parseInt :: "jsstring \<Rightarrow> number" where
  "parseInt ds = toNumber (foldl (\<lambda>a d. 10 * a + (d - 48)) 0 ds)"

text \<open>
  The conversion a template literal applies to a Number, \<open>Number::toString\<close>. It prints
  the integer with the fewest significant digits among those whose Number is \<open>x\<close>, and of
  several such the one nearest to \<open>x\<close> (the one with the even last digit when two are
  equally near). \<open>candidates x m\<close> are the multiples of \<open>10 ^ m\<close> next to \<open>x\<close> whose Number is
  \<open>x\<close>, the nearer one first; \<open>shortest\<close> tries the scales from the largest down.
\<close>

definition candidates :: "nat \<Rightarrow> nat \<Rightarrow> nat list" where
  "candidates x m =
     (let unit = 10 ^ m; lo = x div unit * unit; hi = lo + unit
      in filter (\<lambda>y. toNumber y = Finite x)
           (if x - lo < hi - x \<or> (x - lo = hi - x \<and> even (x div unit)) then [lo, hi]
            else [hi, lo]))"

fun shortest :: "nat \<Rightarrow> nat \<Rightarrow> nat" where
  "shortest x 0 = x"
| "shortest x (Suc m) = (case candidates x (Suc m) of y # ys \<Rightarrow> y | [] \<Rightarrow> shortest x m)"

text \<open>A number without its trailing zeros.\<close>

function significand :: "nat \<Rightarrow> nat" where
  "significand y = (if y \<noteq> 0 \<and> y mod 10 = 0 then significand (y div 10) else y)"
  by pat_completeness auto
termination
  by (relation "measure id") auto

declare significand.simps [simp del]

text \<open>Plain decimal digits below \<open>10 ^ 21\<close>; from there on the significant digits, a point
  after the first of them when there are more, and the exponent, as in \<open>1e+21\<close>.\<close>

definition numberToString :: "nat \<Rightarrow> jsstring" where
  "numberToString v =
     (case toNumber v of
        Infinity \<Rightarrow> js ''Infinity''
      | Finite x \<Rightarrow>
          (let y = shortest x (length (decimalDigits x))
           in if y < 10 ^ 21 then decimalDigits y
              else (let s = decimalDigits (significand y)
                    in (if length s = 1 then s else hd s # 46 # tl s) @ js ''e+'' @
                       decimalDigits (length (decimalDigits y) - 1))))"

subsection \<open>The two regular expressions of setEphemeralState\<close>

text \<open>\<open>s.match(/page=(\<bslash>d+)/)\<close>: the leftmost place where \<open>page=\<close> is followed by a digit;
  the group is the longest run of digits there.\<close>

fun matchPage :: "jsstring \<Rightarrow> jsstring option" where
  "matchPage [] = None"
| "matchPage (c # cs) =
     (if take 5 (c # cs) = js ''page='' \<and> takeWhile isDigit (drop 5 (c # cs)) \<noteq> []
      then Some (takeWhile isDigit (drop 5 (c # cs)))
      else matchPage cs)"

text \<open>\<open>s.match(/q=([^&]+)/)\<close>: the leftmost place where \<open>q=\<close> is followed by a character
  other than \<open>&\<close>; the group runs to the next \<open>&\<close> or to the end.\<close>

fun matchQ :: "jsstring \<Rightarrow> jsstring option" where
  "matchQ [] = None"
| "matchQ (c # cs) =
     (if take 2 (c # cs) = js ''q='' \<and> takeWhile (\<lambda>x. x \<noteq> 38) (drop 2 (c # cs)) \<noteq> []
      then Some (takeWhile (\<lambda>x. x \<noteq> 38) (drop 2 (c # cs)))
      else matchQ cs)"

section \<open>The plugin: the page position of every file\<close>

text \<open>
  \<open>DjVuReaderPlugin.data.filePages\<close> maps a vault path to the last page seen: the own
  properties of the object, as its declared type \<open>Record<string, number>\<close> has them. The keys
  the view looks up are paths of vault files; the names of the members of
  \<open>Object.prototype\<close>, which the lookup of the source would find, are no such paths for the
  files the view is registered for (extension \<open>djvu\<close> or \<open>djv\<close>).
  \<open>setFilePage\<close> stores the page in memory and then awaits the host's \<open>saveData\<close>; its
  promise settles as that write does, so the model returns the new map together with the
  outcome the host reported (\<open>None\<close>: written, \<open>Some m\<close>: failed with message \<open>m\<close>).
\<close>

type_synonym filePages = "jsstring \<rightharpoonup> nat"

definition getFilePage :: "filePages \<Rightarrow> jsstring \<Rightarrow> nat option" where
  "getFilePage d filePath = d filePath"

text \<open>The assignment \<open>filePages[filePath] = page\<close> makes or updates an own property; only
  for the key \<open>__proto__\<close>, when it is no own property, it goes to the setter of
  \<open>Object.prototype\<close>, which ignores a number.\<close>

definition assignPage :: "filePages \<Rightarrow> jsstring \<Rightarrow> nat \<Rightarrow> filePages" where
  "assignPage d filePath page =
     (if filePath = js ''__proto__'' \<and> d filePath = None then d else d(filePath \<mapsto> page))"

definition setFilePage :: "filePages \<Rightarrow> jsstring option \<Rightarrow> jsstring \<Rightarrow> nat
    \<Rightarrow> filePages \<times> jsstring option" where
  "setFilePage d saveData filePath page = (assignPage d filePath page, saveData)"

section \<open>The view\<close>

record tfile =
  path :: jsstring
  name :: jsstring
  extension :: jsstring

text \<open>The three clipboard payloads of the selection menu.\<close>

record menu =
  copyText :: jsstring
  copyQuote :: jsstring
  copyLink :: jsstring

text \<open>
  What \<open>contentEl\<close> holds: nothing; the viewer root built by render number \<open>n\<close>, with the
  iframe of that render and the status line (\<open>True\<close> while it reads "Loading DjVu"); or the
  error panel with its message.
\<close>

datatype content = Blank | Viewer nat bool | ErrorPanel jsstring

text \<open>
  The fields of \<open>DjvuView\<close> (\<open>viewFile\<close> is the inherited \<open>this.file\<close>). An iframe, a message handler and a handshake wait are named by
  the sequence number of the render call that created them.
\<close>

record view =
  viewFile :: "tfile option"
  iframeEl :: "nat option"
  messageHandler :: "nat option"
  renderSeq :: nat
  initWait :: "nat option"
  pendingPage :: "number option"
  pendingHighlight :: "jsstring option"
  activeMenu :: "menu option"
  contentEl :: content
  containerClass :: bool

subsection \<open>setEphemeralState\<close>

text \<open>The values \<open>page\<close> and \<open>highlight\<close> computed before any field is written; the
  \<open>decodeURIComponent\<close> of the \<open>q\<close> group stands outside the \<open>try\<close> and may throw.\<close>

definition parseSubpath :: "jsstring \<Rightarrow> error + (number option \<times> jsstring option)" where
  "parseSubpath subpath =
     (let page = map_option parseInt (matchPage subpath)
      in case matchQ subpath of
           None \<Rightarrow> Inr (page, None)
         | Some g \<Rightarrow>
             (case decodeURIComponent g of
                Inl e \<Rightarrow> Inl e
              | Inr highlight \<Rightarrow> Inr (page, Some highlight)))"

text \<open>The body of the \<open>try\<close>: \<open>decodeURIComponent(escape(atob(highlight)))\<close>, with \<open>null\<close> from
  the \<open>catch\<close>.\<close>

definition decodeHighlight :: "jsstring \<Rightarrow> jsstring option" where
  "decodeHighlight highlight =
     (case atob highlight of
        Inl e \<Rightarrow> None
      | Inr bytes \<Rightarrow>
          (case decodeURIComponent (escape bytes) of
             Inl e \<Rightarrow> None
           | Inr text \<Rightarrow> Some text))"

text \<open>The argument is \<open>state.subpath\<close> when that is a string, and \<open>None\<close> otherwise.\<close>

definition setEphemeralState :: "jsstring option \<Rightarrow> view \<Rightarrow> error + view" where
  "setEphemeralState st v =
     (let subpath = (case st of Some s \<Rightarrow> s | None \<Rightarrow> [])
      in case parseSubpath subpath of
           Inl e \<Rightarrow> Inl e
         | Inr (page, highlight) \<Rightarrow>
             (let v1 = (case page of Some p \<Rightarrow> v\<lparr>pendingPage := Some p\<rparr> | None \<Rightarrow> v)
              in Inr (case highlight of
                        Some h \<Rightarrow> v1\<lparr>pendingHighlight := decodeHighlight h\<rparr>
                      | None \<Rightarrow> v1)))"

subsection \<open>showSelectionContextMenu\<close>

text \<open>\<open>encodeURIComponent(btoa(unescape(encodeURIComponent(text))))\<close>\<close>

definition encodeText :: "jsstring \<Rightarrow> error + jsstring" where
  "encodeText text =
     (case encodeURIComponent text of
        Inl e \<Rightarrow> Inl e
      | Inr escaped \<Rightarrow>
          (case btoa (unescape escaped) of
             Inl e \<Rightarrow> Inl e
           | Inr b \<Rightarrow> encodeURIComponent b))"

definition linkWithHighlight :: "tfile \<Rightarrow> nat \<Rightarrow> jsstring \<Rightarrow> jsstring" where
  "linkWithHighlight f page encodedText =
     js ''[['' @ path f @ js ''#page='' @ numberToString page @ js ''&q='' @ encodedText @
     js ''|'' @ name f @ js '' (page '' @ numberToString page @ js '')]]''"

text \<open>\<open>replace(/\<bslash>r\<bslash>n/g, "\<bslash>n")\<close>, \<open>replace(/\<bslash>r/g, "\<bslash>n")\<close>, \<open>split("\<bslash>n")\<close> and
  \<open>join("\<bslash>n")\<close>.\<close>

fun replaceCRLF :: "jsstring \<Rightarrow> jsstring" where
  "replaceCRLF (a # b # r) =
     (if a = 13 \<and> b = 10 then 10 # replaceCRLF r else a # replaceCRLF (b # r))"
| "replaceCRLF s = s"

definition replaceCR :: "jsstring \<Rightarrow> jsstring" where
  "replaceCR s = map (\<lambda>c. if c = 13 then 10 else c) s"

fun splitNL :: "jsstring \<Rightarrow> jsstring list" where
  "splitNL [] = [[]]"
| "splitNL (c # cs) =
     (if c = 10 then [] # splitNL cs
      else (case splitNL cs of l # ls \<Rightarrow> (c # l) # ls | [] \<Rightarrow> [[c]]))"

fun joinNL :: "jsstring list \<Rightarrow> jsstring" where
  "joinNL [] = []"
| "joinNL [l] = l"
| "joinNL (l # ls) = l @ 10 # joinNL ls"

definition quoteLines :: "jsstring \<Rightarrow> jsstring list" where
  "quoteLines text =
     map (\<lambda>l. trimEnd (js ''> '' @ l)) (splitNL (replaceCR (replaceCRLF text)))"

definition quoteBlock :: "jsstring \<Rightarrow> jsstring \<Rightarrow> jsstring" where
  "quoteBlock text link = joinNL (quoteLines text) @ [10, 10] @ link"

text \<open>The menu position (the iframe's rectangle plus the event coordinates) is left out:
  it decides nothing about the strings the menu copies.\<close>

definition showSelectionContextMenu :: "jsstring \<Rightarrow> nat \<Rightarrow> view \<Rightarrow> error + view" where
  "showSelectionContextMenu text page v =
     (case viewFile v of
        None \<Rightarrow> Inr v
      | Some f \<Rightarrow>
          if iframeEl v = None \<or> text = [] then Inr v
          else (case encodeText text of
                  Inl e \<Rightarrow> Inl e
                | Inr encodedText \<Rightarrow>
                    (let link = linkWithHighlight f page encodedText
                     in Inr (v\<lparr>activeMenu :=
                          Some \<lparr>copyText = text, copyQuote = quoteBlock text link,
                                copyLink = link\<rparr>\<rparr>))))"

section \<open>The rendering session\<close>

text \<open>
  \<open>render\<close> is an async function: it runs to its first \<open>await\<close> and is resumed by the
  event loop. A suspended call is a task: the values its closure holds, the \<open>await\<close> it
  stands at, and the state of the \<open>readBinary\<close> promise it started.
\<close>

datatype pc = AwaitReady | AwaitBuffer | AwaitSettle | Returned

datatype promise = Pending | Fulfilled | Rejected jsstring

record task =
  taskFile :: tfile
  taskPage :: "number option"
  taskHighlight :: "jsstring option"
  taskPc :: pc
  bufferPromise :: promise

text \<open>A \<open>LOAD_DJVU\<close> message delivered to the window of an iframe.\<close>

record load =
  target :: nat
  loadBuffer :: jsstring
  loadName :: jsstring
  loadPage :: "number option"
  loadHighlight :: "jsstring option"

datatype hostCall = RemoveEventListener nat | ClearTimeout nat

datatype report = UncaughtException error | UnhandledRejection jsstring

text \<open>
  The view together with what it shares with the host: the plugin's page map and the
  outcome the host's \<open>saveData\<close> currently gives, the \<open>message\<close> listeners of the window,
  the handshake timers that are armed, the suspended render calls, and what has left the
  view (load commands, notices, listener and timer removals, errors reported by the
  engine because nothing caught them).
\<close>

record world =
  view :: view
  filePages :: filePages
  saveData :: "jsstring option"
  listeners :: "nat list"
  timeouts :: "nat list"
  tasks :: "nat \<Rightarrow> task option"
  posted :: "load list"
  notices :: "jsstring list"
  hostCalls :: "hostCall list"
  reports :: "report list"

definition cleanup :: "world \<Rightarrow> world" where
  "cleanup w =
     (let w1 = (case messageHandler (view w) of
                  Some h \<Rightarrow> w\<lparr>listeners := removeAll h (listeners w),
                              hostCalls := hostCalls w @ [RemoveEventListener h],
                              view := (view w)\<lparr>messageHandler := None\<rparr>\<rparr>
                | None \<Rightarrow> w);
          w2 = (case initWait (view w1) of
                  Some n \<Rightarrow> w1\<lparr>timeouts := removeAll n (timeouts w1),
                               hostCalls := hostCalls w1 @ [ClearTimeout n],
                               view := (view w1)\<lparr>initWait := None\<rparr>\<rparr>
                | None \<Rightarrow> w1)
      in w2\<lparr>view := (view w2)\<lparr>iframeEl := None, contentEl := Blank\<rparr>\<rparr>)"

definition onOpen :: "world \<Rightarrow> world" where
  "onOpen w = w\<lparr>view := (view w)\<lparr>containerClass := True\<rparr>\<rparr>"

definition onUnloadFile :: "world \<Rightarrow> world" where
  "onUnloadFile w = cleanup w"

definition onClose :: "world \<Rightarrow> world" where
  "onClose w = (let w1 = cleanup w in w1\<lparr>view := (view w1)\<lparr>containerClass := False\<rparr>\<rparr>)"

definition showError :: "jsstring \<Rightarrow> world \<Rightarrow> world" where
  "showError message w = w\<lparr>view := (view w)\<lparr>contentEl := ErrorPanel message\<rparr>\<rparr>"

text \<open>
  \<open>toLowerCase\<close> on the letters A to Z. \<open>render\<close> compares the lower-cased extension with
  \<open>djvu\<close> and \<open>djv\<close>; no character outside A to Z lower-cases to one of their letters, so
  the comparison comes out as with the built-in.
\<close>

definition asciiLowerCase :: "jsstring \<Rightarrow> jsstring" where
  "asciiLowerCase s = map (\<lambda>c. if 65 \<le> c \<and> c \<le> 90 then c + 32 else c) s"

text \<open>\<open>render\<close> up to its first \<open>await\<close>.\<close>

definition render :: "tfile option \<Rightarrow> number option \<Rightarrow> jsstring option \<Rightarrow> world \<Rightarrow> world" where
  "render fileArg page highlight w =
     (case (case fileArg of Some f \<Rightarrow> Some f | None \<Rightarrow> viewFile (view w)) of
        None \<Rightarrow> showError (js ''No file.'') w
      | Some f \<Rightarrow>
          (let ext = asciiLowerCase (extension f)
           in if ext \<noteq> js ''djvu'' \<and> ext \<noteq> js ''djv'' then showError (js ''Not a DjVu file.'') w
              else
                (let seq = Suc (renderSeq (view w));
                     w1 = cleanup (w\<lparr>view := (view w)\<lparr>renderSeq := seq\<rparr>\<rparr>)
                 in w1\<lparr>view := (view w1)\<lparr>contentEl := Viewer seq True, iframeEl := Some seq,
                                           messageHandler := Some seq, initWait := Some seq\<rparr>,
                        listeners := listeners w1 @ [seq],
                        timeouts := timeouts w1 @ [seq],
                        tasks := (tasks w1)(seq \<mapsto>
                          \<lparr>taskFile = f, taskPage = page, taskHighlight = highlight,
                           taskPc = AwaitReady, bufferPromise = Pending\<rparr>)\<rparr>)))"

definition onLoadFile :: "tfile \<Rightarrow> world \<Rightarrow> world" where
  "onLoadFile f w =
     (let savedPage = getFilePage (filePages w) (path f);
          page = (case pendingPage (view w) of
                    Some p \<Rightarrow> Some p
                  | None \<Rightarrow> map_option Finite savedPage);
          highlight = pendingHighlight (view w)
      in render (Some f) page highlight
           (w\<lparr>view := (view w)\<lparr>pendingPage := None, pendingHighlight := None\<rparr>\<rparr>))"

subsection \<open>The continuations of render\<close>

definition setPc :: "nat \<Rightarrow> pc \<Rightarrow> world \<Rightarrow> world" where
  "setPc seq p w = w\<lparr>tasks := (\<lambda>n. if n = seq then map_option (\<lambda>t. t\<lparr>taskPc := p\<rparr>) (tasks w n)
                                    else tasks w n)\<rparr>"

text \<open>The \<open>catch\<close> block: the error panel and a notice, whatever the sequence number.\<close>

definition catchError :: "nat \<Rightarrow> jsstring \<Rightarrow> world \<Rightarrow> world" where
  "catchError seq message w =
     (let w1 = showError (js ''Failed to open DjVu: '' @ message) w
      in setPc seq Returned (w1\<lparr>notices := notices w1 @ [js ''DjVu reader: '' @ message]\<rparr>))"

text \<open>\<open>iframe.contentWindow\<close>: the window of the iframe while it is in the document.\<close>

definition contentWindow :: "nat \<Rightarrow> world \<Rightarrow> nat option" where
  "contentWindow seq w =
     (case contentEl (view w) of Viewer n b \<Rightarrow> if n = seq then Some seq else None | _ \<Rightarrow> None)"

text \<open>After the settle delay: the final page and highlight, the reset of the pending
  fields, the load command and the cleared status line.\<close>

definition afterSettle :: "nat \<Rightarrow> world \<Rightarrow> world" where
  "afterSettle seq w =
     (case tasks w seq of
        None \<Rightarrow> w
      | Some t \<Rightarrow>
          (let v = view w;
               finalPage = (case pendingPage v of Some p \<Rightarrow> Some p | None \<Rightarrow> taskPage t);
               finalHighlight =
                 (case pendingHighlight v of Some h \<Rightarrow> Some h | None \<Rightarrow> taskHighlight t);
               msg = \<lparr>target = seq, loadBuffer = path (taskFile t), loadName = name (taskFile t),
                      loadPage = finalPage, loadHighlight = finalHighlight\<rparr>;
               statusCleared = (case contentEl v of
                                  Viewer n b \<Rightarrow> if n = seq then Viewer n False else Viewer n b
                                | c \<Rightarrow> c)
           in setPc seq Returned
                (w\<lparr>posted := (if contentWindow seq w = None then posted w else posted w @ [msg]),
                   view := v\<lparr>pendingPage := None, pendingHighlight := None,
                             contentEl := statusCleared\<rparr>\<rparr>)))"

text \<open>After \<open>await bufferPromise\<close>: a superseded render returns, the current one starts the
  settle delay.\<close>

definition afterBuffer :: "nat \<Rightarrow> world \<Rightarrow> world" where
  "afterBuffer seq w =
     (if seq \<noteq> renderSeq (view w) then setPc seq Returned w else setPc seq AwaitSettle w)"

text \<open>After the handshake promise has resolved: \<open>await bufferPromise\<close>.\<close>

definition afterReady :: "nat \<Rightarrow> world \<Rightarrow> world" where
  "afterReady seq w =
     (case tasks w seq of
        None \<Rightarrow> w
      | Some t \<Rightarrow>
          (case bufferPromise t of
             Pending \<Rightarrow> setPc seq AwaitBuffer w
           | Fulfilled \<Rightarrow> afterBuffer seq w
           | Rejected m \<Rightarrow> catchError seq m w))"

definition clearInitWait :: "nat \<Rightarrow> world \<Rightarrow> world" where
  "clearInitWait seq w =
     w\<lparr>timeouts := removeAll seq (timeouts w), hostCalls := hostCalls w @ [ClearTimeout seq],
       view := (view w)\<lparr>initWait := None\<rparr>\<rparr>"

subsection \<open>The message handler\<close>

datatype message =
    DJVU_READY
  | DJVU_LOADED
  | DJVU_ERROR "jsstring option"
  | DJVU_CONTEXT_MENU "jsstring option" "nat option"
  | DJVU_PAGE_CHANGED "nat option"
  | DJVU_CLICK
  | Untyped

text \<open>
  The handler registered by render number \<open>seq\<close>, called with the source window and the
  data of a message event. A field of the data is \<open>None\<close> when it has not the type the
  handler asks for (\<open>typeof data.text === "string"\<close>, \<open>typeof data.page === "number"\<close>).
  The promise \<open>setFilePage\<close> returns is dropped by \<open>void\<close>: when it rejects, nothing is
  awaiting it and the engine reports an unhandled rejection.
\<close>

definition handleMessage :: "nat \<Rightarrow> nat option \<Rightarrow> message \<Rightarrow> world \<Rightarrow> world" where
  "handleMessage seq source data w =
     (case tasks w seq of
        None \<Rightarrow> w
      | Some t \<Rightarrow>
          if source \<noteq> contentWindow seq w then w
          else (case data of
                  Untyped \<Rightarrow> w
                | DJVU_LOADED \<Rightarrow> w
                | DJVU_READY \<Rightarrow>
                    if initWait (view w) = Some seq then afterReady seq (clearInitWait seq w)
                    else w
                | DJVU_ERROR m \<Rightarrow>
                    if initWait (view w) = Some seq
                    then catchError seq
                           (case m of
                              Some s \<Rightarrow> if s = [] then js ''DjVu viewer error'' else s
                            | None \<Rightarrow> js ''DjVu viewer error'')
                           (clearInitWait seq w)
                    else w
                | DJVU_CONTEXT_MENU text page \<Rightarrow>
                    (case showSelectionContextMenu
                            (trim (case text of Some s \<Rightarrow> s | None \<Rightarrow> []))
                            (case page of Some p \<Rightarrow> p | None \<Rightarrow> 1) (view w) of
                       Inl e \<Rightarrow> w\<lparr>reports := reports w @ [UncaughtException e]\<rparr>
                     | Inr v \<Rightarrow> w\<lparr>view := v\<rparr>)
                | DJVU_PAGE_CHANGED page \<Rightarrow>
                    (case page of
                       None \<Rightarrow> w
                     | Some p \<Rightarrow>
                         (case setFilePage (filePages w) (saveData w) (path (taskFile t)) p of
                            (d, None) \<Rightarrow> w\<lparr>filePages := d\<rparr>
                          | (d, Some m) \<Rightarrow>
                              w\<lparr>filePages := d, reports := reports w @ [UnhandledRejection m]\<rparr>))
                | DJVU_CLICK \<Rightarrow> w\<lparr>view := (view w)\<lparr>activeMenu := None\<rparr>\<rparr>))"

subsection \<open>The events of the host and of the event loop\<close>

datatype event =
    Open
  | LoadFile tfile
  | UnloadFile
  | Close
  | EphemeralState "jsstring option"
  | Message "nat option" message
  | BufferRead nat "jsstring option"
  | HandshakeTimeout nat
  | SettleTimeout nat

text \<open>
  One turn of the event loop.
  \<^item> \<open>LoadFile f\<close>: the host sets \<open>this.file\<close> and calls \<open>onLoadFile\<close>; \<open>UnloadFile\<close> and
    \<open>Close\<close> call \<open>onUnloadFile\<close> and \<open>onClose\<close>.
  \<^item> \<open>EphemeralState st\<close>: the host calls \<open>setEphemeralState\<close>; an exception it throws goes
    back to the host and no field is written.
  \<^item> \<open>Message source data\<close>: a message event on the window, given to every registered
    listener.
  \<^item> \<open>BufferRead seq r\<close>: the \<open>readBinary\<close> promise of render \<open>seq\<close> settles (\<open>None\<close>: with
    the bytes, \<open>Some m\<close>: rejected with message \<open>m\<close>) and resumes the call if it awaits it;
    a rejection that no call awaits is reported by the engine as unhandled.
  \<^item> \<open>HandshakeTimeout seq\<close>: the 15 s timer of render \<open>seq\<close> fires, if still armed.
  \<^item> \<open>SettleTimeout seq\<close>: the 50 ms timer of render \<open>seq\<close> fires.
\<close>

definition step :: "event \<Rightarrow> world \<Rightarrow> world" where
  "step ev w =
     (case ev of
        Open \<Rightarrow> onOpen w
      | LoadFile f \<Rightarrow> onLoadFile f (w\<lparr>view := (view w)\<lparr>viewFile := Some f\<rparr>\<rparr>)
      | UnloadFile \<Rightarrow> (let w1 = onUnloadFile w in w1\<lparr>view := (view w1)\<lparr>viewFile := None\<rparr>\<rparr>)
      | Close \<Rightarrow> onClose w
      | EphemeralState st \<Rightarrow>
          (case setEphemeralState st (view w) of
             Inl e \<Rightarrow> w\<lparr>reports := reports w @ [UncaughtException e]\<rparr>
           | Inr v \<Rightarrow> w\<lparr>view := v\<rparr>)
      | Message source data \<Rightarrow> fold (\<lambda>h. handleMessage h source data) (listeners w) w
      | BufferRead seq r \<Rightarrow>
          (case tasks w seq of
             None \<Rightarrow> w
           | Some t \<Rightarrow>
               if bufferPromise t \<noteq> Pending then w
               else
                 (let settled = (case r of None \<Rightarrow> Fulfilled | Some m \<Rightarrow> Rejected m);
                      w1 = w\<lparr>tasks := (tasks w)(seq \<mapsto> t\<lparr>bufferPromise := settled\<rparr>)\<rparr>
                  in if taskPc t = AwaitBuffer
                     then (case r of None \<Rightarrow> afterBuffer seq w1 | Some m \<Rightarrow> catchError seq m w1)
                     else (case r of
                             None \<Rightarrow> w1
                           | Some m \<Rightarrow> w1\<lparr>reports := reports w1 @ [UnhandledRejection m]\<rparr>)))
      | HandshakeTimeout seq \<Rightarrow>
          if seq \<in> set (timeouts w)
          then (let w1 = w\<lparr>timeouts := removeAll seq (timeouts w)\<rparr>
                in if initWait (view w1) = Some seq
                   then catchError seq (js ''Timed out initializing DjVu viewer.'')
                          (w1\<lparr>view := (view w1)\<lparr>initWait := None\<rparr>\<rparr>)
                   else w1)
          else w
      | SettleTimeout seq \<Rightarrow>
          (case tasks w seq of
             None \<Rightarrow> w
           | Some t \<Rightarrow> if taskPc t = AwaitSettle then afterSettle seq w else w))"

definition run :: "event list \<Rightarrow> world \<Rightarrow> world" where
  "run evs w = fold step evs w"

text \<open>A view that has just been constructed, next to a plugin holding \<open>d\<close>.\<close>

definition initial :: "filePages \<Rightarrow> jsstring option \<Rightarrow> world" where
  "initial d sd =
     \<lparr>view = \<lparr>viewFile = None, iframeEl = None, messageHandler = None, renderSeq = 0,
              initWait = None, pendingPage = None, pendingHighlight = None, activeMenu = None,
              contentEl = Blank, containerClass = False\<rparr>,
      filePages = d, saveData = sd, listeners = [], timeouts = [], tasks = (\<lambda>n. None),
      posted = [], notices = [], hostCalls = [], reports = []\<rparr>"

section \<open>The script inside the iframe\<close>

text \<open>The handler of \<open>LOAD_DJVU\<close> gives the viewer \<open>{pageNumber: msg.page}\<close> when
  \<open>msg.page\<close> is truthy and the empty configuration otherwise.\<close>

definition loadConfig :: "number option \<Rightarrow> number option" where
  "loadConfig page =
     (case page of Some p \<Rightarrow> if p = Finite 0 then None else Some p | None \<Rightarrow> None)"

text \<open>Modelled from the spec: \<open>loadDocument\<close> of the vendored DjVu.js viewer, whose code
  is not among the sources. It opens the configured page, and the default page 1 when the
  configuration names none.\<close>

definition viewerPage :: "number option \<Rightarrow> number" where
  "viewerPage config = (case config of Some p \<Rightarrow> p | None \<Rightarrow> Finite 1)"

text \<open>Once the document is loaded the handler calls \<open>highlightText\<close> when \<open>msg.highlight\<close>
  is truthy: a string that is not empty.\<close>

definition wantsHighlight :: "jsstring option \<Rightarrow> bool" where
  "wantsHighlight highlight = (case highlight of Some s \<Rightarrow> s \<noteq> [] | None \<Rightarrow> False)"

subsection \<open>highlightText\<close>

text \<open>
  \<open>highlightText\<close> runs in the iframe. An element matched by \<open>#app span\<close> is modelled by
  its \<open>textContent\<close> and by whether the computed \<open>position\<close> of its parent is \<open>absolute\<close>.
  \<open>String.prototype.toLowerCase\<close> is a parameter \<open>lc\<close> of the functions that call it.
\<close>

record span =
  textContent :: jsstring
  parentAbsolute :: bool

text \<open>\<open>s.replace(/\<bslash>s+/g, '')\<close>\<close>

definition stripWhitespace :: "jsstring \<Rightarrow> jsstring" where
  "stripWhitespace s = filter (\<lambda>c. \<not> isWhiteSpace c) s"

text \<open>\<open>hay.indexOf(needle)\<close>, with \<open>None\<close> for -1.\<close>

fun indexOf :: "jsstring \<Rightarrow> jsstring \<Rightarrow> nat option" where
  "indexOf [] needle = (if needle = [] then Some 0 else None)"
| "indexOf (c # cs) needle =
     (if take (length needle) (c # cs) = needle then Some 0
      else map_option Suc (indexOf cs needle))"

text \<open>The \<open>forEach\<close> that appends each text to \<open>text\<close> and records where it starts.\<close>

fun buildMap :: "jsstring list \<Rightarrow> jsstring \<Rightarrow> nat list \<Rightarrow> jsstring \<times> nat list" where
  "buildMap [] text starts = (text, starts)"
| "buildMap (s # ss) text starts = buildMap ss (text @ s) (starts @ [length text])"

text \<open>
  The \<open>for\<close> loop that maps the match back, from the state \<open>i\<close>, \<open>pos\<close>, \<open>startChar\<close>,
  \<open>endChar\<close>; \<open>len\<close> is \<open>search.length\<close>. The test \<open>pos === idx + search.length - 1\<close> is
  written \<open>pos + 1 = idx + len\<close>: the JavaScript difference is -1 for an empty search at
  index 0 and then never equals \<open>pos\<close>.
\<close>

function mapBack :: "jsstring \<Rightarrow> nat \<Rightarrow> nat \<Rightarrow> nat \<Rightarrow> nat \<Rightarrow> nat \<Rightarrow> nat \<Rightarrow> nat \<times> nat" where
  "mapBack text idx len i pos startChar endChar =
     (if i < length text \<and> pos \<le> idx + len then
        (if \<not> isWhiteSpace (text ! i) then
           (let startChar' = (if pos = idx then i else startChar)
            in if pos + 1 = idx + len then (startChar', i + 1)
               else mapBack text idx len (i + 1) (pos + 1) startChar' endChar)
         else mapBack text idx len (i + 1) pos startChar endChar)
      else (startChar, endChar))"
  by pat_completeness auto
termination
  by (relation "measure (\<lambda>(text, idx, len, i, pos, startChar, endChar). length text - i)") auto

declare mapBack.simps [simp del]

text \<open>The second \<open>forEach\<close>: the span \<open>i\<close> gets the class when it ends after \<open>startChar\<close> and
  starts before \<open>endChar\<close>; it ends where the next one starts, the last one at the end of
  \<open>text\<close>.\<close>

definition markSpans :: "nat list \<Rightarrow> nat \<Rightarrow> nat \<Rightarrow> nat \<Rightarrow> bool list" where
  "markSpans starts textLength startChar endChar =
     map (\<lambda>i. (let end = (if i + 1 < length starts then starts ! (i + 1) else textLength)
                in end > startChar \<and> starts ! i < endChar))
       [0..<length starts]"

datatype outcome = GaveUp | NotFound | Highlighted "bool list"

text \<open>The body of \<open>tryHighlight\<close> once there are spans: which of them get the class.\<close>

definition locate :: "(jsstring \<Rightarrow> jsstring) \<Rightarrow> jsstring list \<Rightarrow> jsstring \<Rightarrow> outcome" where
  "locate lc spans searchText =
     (case buildMap spans [] [] of
        (text, starts) \<Rightarrow>
          (let search = lc (stripWhitespace searchText)
           in case indexOf (lc (stripWhitespace text)) search of
                None \<Rightarrow> NotFound
              | Some idx \<Rightarrow>
                  (case mapBack text idx (length search) 0 0 0 (length text) of
                     (startChar, endChar) \<Rightarrow>
                       Highlighted (markSpans starts (length text) startChar endChar))))"

text \<open>The filter of \<open>tryHighlight\<close>: spans with text left after \<open>trim\<close>, in a positioned
  parent.\<close>

definition textLayer :: "span list \<Rightarrow> jsstring list" where
  "textLayer elements =
     map textContent (filter (\<lambda>s. trim (textContent s) \<noteq> [] \<and> parentAbsolute s) elements)"

text \<open>
  \<open>tryHighlight\<close>, with \<open>attempts\<close> made explicit. \<open>spansAt k\<close> is what \<open>#app span\<close> matches when
  the function runs for the \<open>k\<close>-th time (counted from 0); the run number and \<open>attempts\<close>
  are equal throughout. The result is the outcome together with the delays of the timers
  set on the way.
\<close>

function tryHighlight :: "(jsstring \<Rightarrow> jsstring) \<Rightarrow> (nat \<Rightarrow> span list) \<Rightarrow> jsstring \<Rightarrow> nat
    \<Rightarrow> outcome \<times> nat list" where
  "tryHighlight lc spansAt searchText attempts =
     (let spans = textLayer (spansAt attempts)
      in if spans = [] then
           (if attempts < 20
            then (case tryHighlight lc spansAt searchText (attempts + 1) of
                    (r, timers) \<Rightarrow> (r, 300 # timers))
            else (GaveUp, []))
         else (locate lc spans searchText, []))"
  by pat_completeness auto
termination
  by (relation "measure (\<lambda>(lc, spansAt, searchText, attempts). 20 - attempts)") auto

declare tryHighlight.simps [simp del]

definition highlightText :: "(jsstring \<Rightarrow> jsstring) \<Rightarrow> (nat \<Rightarrow> span list) \<Rightarrow> jsstring
    \<Rightarrow> outcome \<times> nat list" where
  "highlightText lc spansAt searchText = tryHighlight lc spansAt searchText 0"

section \<open>Vocabulary of the theorems\<close>

text \<open>A file that passes the extension test of \<open>render\<close>.\<close>

definition isDjvuFile :: "tfile \<Rightarrow> bool" where
  "isDjvuFile f \<longleftrightarrow>
     asciiLowerCase (extension f) = js ''djvu'' \<or> asciiLowerCase (extension f) = js ''djv''"

definition docA :: tfile where
  "docA = \<lparr>path = js ''a.djvu'', name = js ''a.djvu'', extension = js ''djvu''\<rparr>"

definition docB :: tfile where
  "docB = \<lparr>path = js ''b.djvu'', name = js ''b.djvu'', extension = js ''djvu''\<rparr>"

text \<open>The view after \<open>a.djvu\<close> has been opened and its load command sent.\<close>

definition interactiveA :: "filePages \<Rightarrow> jsstring option \<Rightarrow> world" where
  "interactiveA d sd =
     run [LoadFile docA, Message (Some 1) DJVU_READY, BufferRead 1 None, SettleTimeout 1]
       (initial d sd)"

section \<open>Vocabulary of the codec theorems\<close>

text \<open>
  A well-formed string: every unit is below 65536 and every surrogate has its partner, so
  the string is a sequence of Unicode characters.
\<close>

fun wellFormed :: "jsstring \<Rightarrow> bool" where
  "wellFormed [] = True"
| "wellFormed (c # cs) =
     (if isLeadSurrogate c
      then (case cs of [] \<Rightarrow> False | d # ds \<Rightarrow> isTrailSurrogate d \<and> wellFormed ds)
      else \<not> isTrailSurrogate c \<and> c < 65536 \<and> wellFormed cs)"

text \<open>A natural number that is a Number.\<close>

definition isNumber :: "nat \<Rightarrow> bool" where
  "isNumber n \<longleftrightarrow> toNumber n = Finite n"

text \<open>A Unicode scalar value.\<close>

definition isScalar :: "nat \<Rightarrow> bool" where
  "isScalar cp \<longleftrightarrow> cp < 1114112 \<and> \<not> (55296 \<le> cp \<and> cp \<le> 57343)"


text \<open>The base64 text of a byte sequence without its padding signs.\<close>

fun base64Body :: "nat list \<Rightarrow> jsstring" where
  "base64Body (a # b # c # r) =
     [b64 (a div 4), b64 ((a mod 4) * 16 + b div 16), b64 ((b mod 16) * 4 + c div 64),
      b64 (c mod 64)] @ base64Body r"
| "base64Body [a, b] = [b64 (a div 4), b64 ((a mod 4) * 16 + b div 16), b64 ((b mod 16) * 4)]"
| "base64Body [a] = [b64 (a div 4), b64 ((a mod 4) * 16)]"
| "base64Body [] = []"


text \<open>The part of the link between \<open>#\<close> and \<open>|\<close>.\<close>

definition locatorFragment :: "nat \<Rightarrow> jsstring \<Rightarrow> jsstring" where
  "locatorFragment page encodedText = js ''page='' @ numberToString page @ js ''&q='' @ encodedText"


text \<open>
  The words of the spec for the quote block: the selection split at every newline
  convention (CR LF, CR, LF), and a line prefixed with the quotation marker with its
  trailing whitespace removed (a blank line keeps the marker alone).
\<close>

fun specLines :: "jsstring \<Rightarrow> jsstring list" where
  "specLines [] = [[]]"
| "specLines [c] = (if c = 13 \<or> c = 10 then [[], []] else [[c]])"
| "specLines (c # d # r) =
     (if c = 13 \<and> d = 10 then [] # specLines r
      else if c = 13 \<or> c = 10 then [] # specLines (d # r)
      else (case specLines (d # r) of l # ls \<Rightarrow> (c # l) # ls | [] \<Rightarrow> [[c]]))"

definition specQuoteLine :: "jsstring \<Rightarrow> jsstring" where
  "specQuoteLine l = (if list_all isWhiteSpace l then js ''>'' else js ''> '' @ trimEnd l)"

text \<open>A view as its constructor leaves it, and what \<open>setEphemeralState\<close> makes pending in it:
  the page and the quote a fragment decodes to.\<close>

definition freshView :: view where
  "freshView = \<lparr>viewFile = None, iframeEl = None, messageHandler = None, renderSeq = 0,
              initWait = None, pendingPage = None, pendingHighlight = None, activeMenu = None,
              contentEl = Blank, containerClass = False\<rparr>"

definition decodeFragment :: "jsstring \<Rightarrow> error + (number option \<times> jsstring option)" where
  "decodeFragment s =
     (case setEphemeralState (Some s) freshView of
        Inl e \<Rightarrow> Inl e
      | Inr v \<Rightarrow> Inr (pendingPage v, pendingHighlight v))"

definition docDjvu :: tfile where
  "docDjvu = \<lparr>path = js ''doc.djvu'', name = js ''doc.djvu'', extension = js ''djvu''\<rparr>"

section \<open>The locator in the words of the spec\<close>

text \<open>
  The Fuzzy Text Locator in the words of the spec: the buffer is the concatenation of the
  fragments, each fragment starting where the ones before it end; buffer and query are
  normalized; the first occurrence of the normalized query is sought; its start and its end
  are taken back to offsets of the buffer by counting the characters that are not
  whitespace; a fragment is matched when its span overlaps the span found.
\<close>

definition specNormalize :: "(jsstring \<Rightarrow> jsstring) \<Rightarrow> jsstring \<Rightarrow> jsstring" where
  "specNormalize lc s = lc (filter (\<lambda>c. \<not> isWhiteSpace c) s)"

definition occursAt :: "jsstring \<Rightarrow> jsstring \<Rightarrow> nat \<Rightarrow> bool" where
  "occursAt hay needle i \<longleftrightarrow> i + length needle \<le> length hay \<and> take (length needle) (drop i hay) = needle"

definition firstOccurrence :: "jsstring \<Rightarrow> jsstring \<Rightarrow> nat option" where
  "firstOccurrence hay needle = find (occursAt hay needle) [0..<Suc (length hay)]"

text \<open>The offset in \<open>text\<close> of its \<open>k\<close>-th character that is not whitespace, counted from 0.\<close>

fun originalOffset :: "jsstring \<Rightarrow> nat \<Rightarrow> nat option" where
  "originalOffset [] k = None"
| "originalOffset (c # cs) k =
     (if isWhiteSpace c then map_option Suc (originalOffset cs k)
      else (case k of 0 \<Rightarrow> Some 0 | Suc j \<Rightarrow> map_option Suc (originalOffset cs j)))"

text \<open>The span in the buffer of a match of \<open>len\<close> normalized characters at normalized index
  \<open>idx\<close>: from its first character to just after its last; empty for an empty match.\<close>

definition specSpan :: "jsstring \<Rightarrow> nat \<Rightarrow> nat \<Rightarrow> nat \<times> nat" where
  "specSpan text idx len =
     (let startChar = (case originalOffset text idx of Some p \<Rightarrow> p | None \<Rightarrow> length text)
      in if len = 0 then (startChar, startChar)
         else (startChar,
               (case originalOffset text (idx + len - 1) of Some p \<Rightarrow> p + 1 | None \<Rightarrow> length text)))"

definition overlaps :: "nat \<times> nat \<Rightarrow> nat \<times> nat \<Rightarrow> bool" where
  "overlaps a b \<longleftrightarrow> max (fst a) (fst b) < min (snd a) (snd b)"

definition fragmentSpan :: "jsstring list \<Rightarrow> nat \<Rightarrow> nat \<times> nat" where
  "fragmentSpan fragments i =
     (length (concat (take i fragments)), length (concat (take i fragments)) + length (fragments ! i))"

definition specLocate :: "(jsstring \<Rightarrow> jsstring) \<Rightarrow> jsstring list \<Rightarrow> jsstring \<Rightarrow> outcome" where
  "specLocate lc fragments query =
     (let buffer = concat fragments;
          needle = specNormalize lc query
      in case firstOccurrence (specNormalize lc buffer) needle of
           None \<Rightarrow> NotFound
         | Some idx \<Rightarrow>
             Highlighted (map (\<lambda>i. overlaps (fragmentSpan fragments i)
                                      (specSpan buffer idx (length needle)))
                            [0..<length fragments]))"



text \<open>A text layer for the examples: three fragments, a blank span and a span outside
  the layer.\<close>

definition helloLayer :: "span list" where
  "helloLayer = [\<lparr>textContent = js ''Hel'', parentAbsolute = True\<rparr>,
                 \<lparr>textContent = js ''  '', parentAbsolute = True\<rparr>,
                 \<lparr>textContent = js ''lo wor'', parentAbsolute = True\<rparr>,
                 \<lparr>textContent = js ''menu'', parentAbsolute = False\<rparr>,
                 \<lparr>textContent = js ''ld'', parentAbsolute = True\<rparr>]"

section \<open>Closing twice\<close>

lemma cleanup_fields:
  "messageHandler (view (cleanup w)) = None"
  "initWait (view (cleanup w)) = None"
  "iframeEl (view (cleanup w)) = None"
  "contentEl (view (cleanup w)) = Blank"
  by (simp_all add: cleanup_def Let_def split: option.splits)

lemma cleanup_torn_down:
  assumes "messageHandler (view w) = None" "initWait (view w) = None"
    "iframeEl (view w) = None" "contentEl (view w) = Blank"
  shows "cleanup w = w"
  using assms by (simp add: cleanup_def)

lemma cleanup_cleanup: "cleanup (cleanup w) = cleanup w"
  by (rule cleanup_torn_down) (rule cleanup_fields)+

text \<open>
  C9. The teardown is idempotent: after \<open>cleanup\<close> the handler and the handshake wait are
  null, a second \<open>cleanup\<close> changes nothing (in particular it removes no listener and
  clears no timer again: the list of host calls is part of the state), and the same holds
  for \<open>onUnloadFile\<close> and \<open>onClose\<close> called twice.
\<close>

theorem cleanup_idempotent:
  "cleanup (cleanup w) = cleanup w \<and>
   messageHandler (view (cleanup w)) = None \<and> initWait (view (cleanup w)) = None \<and>
   hostCalls (cleanup (cleanup w)) = hostCalls (cleanup w) \<and>
   onUnloadFile (onUnloadFile w) = onUnloadFile w \<and>
   onClose (onClose w) = onClose w"
proof -
  have c: "cleanup (cleanup w) = cleanup w" by (rule cleanup_cleanup)
  have "cleanup (onClose w) = onClose w"
    by (rule cleanup_torn_down) (simp_all add: onClose_def Let_def cleanup_fields)
  then have "onClose (onClose w) = onClose w"
    by (simp add: onClose_def [of "onClose w"] Let_def) (simp add: onClose_def Let_def)
  with c show ?thesis
    by (simp add: onUnloadFile_def cleanup_fields)
qed

section \<open>Numbers and their digits\<close>

lemma bitLength_upper: "n < 2 ^ bitLength n"
proof (induction n rule: bitLength.induct)
  case (1 n)
  show ?case
  proof (cases "n = 0")
    case True
    then show ?thesis by (simp add: bitLength.simps [of n])
  next
    case False
    with 1 have "n div 2 < 2 ^ bitLength (n div 2)" by simp
    then have "n < 2 * 2 ^ bitLength (n div 2)" by linarith
    with False show ?thesis by (simp add: bitLength.simps [of n])
  qed
qed

lemma bitLength_lower: "n \<noteq> 0 \<Longrightarrow> 2 ^ (bitLength n - 1) \<le> n"
proof (induction n rule: bitLength.induct)
  case (1 n)
  show ?case
  proof (cases "n div 2 = 0")
    case True
    with "1.prems" have "n = 1" by (simp add: div_eq_0_iff)
    moreover have "bitLength (Suc 0) = Suc 0"
      by (simp add: bitLength.simps [of "Suc 0"] bitLength.simps [of 0])
    ultimately show ?thesis by simp
  next
    case False
    with 1 have ih: "2 ^ (bitLength (n div 2) - 1) \<le> n div 2" by simp
    have "bitLength (n div 2) \<noteq> 0" using False by (simp add: bitLength.simps [of "n div 2"])
    then have e: "bitLength n - 1 = Suc (bitLength (n div 2) - 1)"
      using "1.prems" by (simp add: bitLength.simps [of n])
    have "2 * 2 ^ (bitLength (n div 2) - 1) \<le> n" using ih by linarith
    then show ?thesis using e by simp
  qed
qed

lemma bitLength_le: "n < 2 ^ k \<Longrightarrow> bitLength n \<le> k"
proof (cases "n = 0")
  case True
  then show ?thesis by (simp add: bitLength.simps [of 0])
next
  case False
  assume "n < 2 ^ k"
  with bitLength_lower [OF False] have "(2::nat) ^ (bitLength n - 1) < 2 ^ k" by linarith
  then have "bitLength n - 1 < k" by (simp add: power_strict_increasing_iff)
  then show ?thesis by simp
qed

lemma bitLength_gt: "2 ^ k \<le> n \<Longrightarrow> k < bitLength n"
proof -
  assume "2 ^ k \<le> n"
  with bitLength_upper [of n] have "(2::nat) ^ k < 2 ^ bitLength n" by linarith
  then show ?thesis by (simp add: power_strict_increasing_iff)
qed

lemma roundToDouble_small: "n < 2 ^ 53 \<Longrightarrow> roundToDouble n = n"
  using bitLength_le [of n 53] by (simp add: roundToDouble_def)

lemma roundToDouble_large:
  assumes "2 ^ 53 \<le> n"
  shows "2 ^ 53 \<le> roundToDouble n"
proof -
  define e where "e = bitLength n - 53"
  have b: "53 < bitLength n" using bitLength_gt [OF assms] .
  then have e: "bitLength n - 1 = 52 + e" "0 < e" by (simp_all add: e_def)
  have "n \<noteq> 0" using assms by auto
  from bitLength_lower [OF this] have "2 ^ (52 + e) \<le> n" unfolding e(1) .
  then have "2 ^ 52 * 2 ^ e \<le> n" unfolding power_add .
  then have q: "2 ^ 52 \<le> n div 2 ^ e"
    by (simp add: less_eq_div_iff_mult_less_eq)
  have "(2::nat) ^ 1 \<le> 2 ^ e" using e(2) by (intro power_increasing) simp_all
  then have u: "(2::nat) \<le> 2 ^ e" by simp
  have "(2::nat) ^ 52 * 2 \<le> (n div 2 ^ e) * 2 ^ e" using q u by (rule mult_le_mono)
  then have l: "(2::nat) ^ 53 \<le> (n div 2 ^ e) * 2 ^ e" by simp
  have "(n div 2 ^ e) * 2 ^ e \<le> (n div 2 ^ e + 1) * 2 ^ e" by simp
  with l have l2: "(2::nat) ^ 53 \<le> (n div 2 ^ e + 1) * 2 ^ e" by linarith
  show ?thesis using b l l2 by (simp add: roundToDouble_def Let_def e_def [symmetric])
qed

lemma toNumber_small: "n < 2 ^ 53 \<Longrightarrow> toNumber n = Finite n"
proof -
  assume a: "n < 2 ^ 53"
  then have "bitLength n \<le> 53" by (rule bitLength_le)
  then show ?thesis using a by (simp add: toNumber_def roundToDouble_small)
qed

lemma toNumber_safe:
  assumes "toNumber y = Finite x" "x < 2 ^ 53"
  shows "y = x"
proof (cases "y < 2 ^ 53")
  case True
  with assms show ?thesis by (simp add: toNumber_small)
next
  case False
  then have "2 ^ 53 \<le> y" by simp
  then have "2 ^ 53 \<le> roundToDouble y" by (rule roundToDouble_large)
  moreover have "roundToDouble y = x" using assms(1) by (simp add: toNumber_def split: if_splits)
  ultimately show ?thesis using assms(2) by simp
qed

lemma candidates_valid: "y \<in> set (candidates x m) \<Longrightarrow> toNumber y = Finite x"
  by (auto simp add: candidates_def Let_def split: if_splits)

lemma shortest_small: "x < 2 ^ 53 \<Longrightarrow> shortest x m = x"
proof (induction m)
  case 0
  show ?case by simp
next
  case (Suc m)
  show ?case
  proof (cases "candidates x (Suc m)")
    case Nil
    with Suc show ?thesis by simp
  next
    case (Cons y ys)
    then have "y \<in> set (candidates x (Suc m))" by simp
    then have "y = x" using candidates_valid toNumber_safe Suc.prems by blast
    with Cons show ?thesis by simp
  qed
qed

lemma numberToString_small: "n < 2 ^ 53 \<Longrightarrow> numberToString n = decimalDigits n"
proof -
  assume a: "n < 2 ^ 53"
  have "(2::nat) ^ 53 < 10 ^ 21" by simp
  with a have "n < 10 ^ 21" by linarith
  with a show ?thesis by (simp add: numberToString_def toNumber_small shortest_small)
qed

lemma shortest_valid: "toNumber x = Finite x \<Longrightarrow> toNumber (shortest x m) = Finite x"
proof (induction m)
  case 0
  then show ?case by simp
next
  case (Suc m)
  show ?case
  proof (cases "candidates x (Suc m)")
    case Nil
    with Suc show ?thesis by simp
  next
    case (Cons y ys)
    then have "y \<in> set (candidates x (Suc m))" by simp
    then have "toNumber y = Finite x" by (rule candidates_valid)
    with Cons show ?thesis by simp
  qed
qed

lemma decimalDigits_digits: "decimalDigits n \<noteq> [] \<and> list_all isDigit (decimalDigits n)"
proof (induction n rule: decimalDigits.induct)
  case (1 n)
  show ?case
  proof (cases "n < 10")
    case True
    then show ?thesis by (simp add: isDigit_def decimalDigits.simps [of n])
  next
    case False
    have "n mod 10 < 10" by simp
    then have "isDigit (48 + n mod 10)" unfolding isDigit_def by linarith
    with False 1 show ?thesis by (simp add: decimalDigits.simps [of n])
  qed
qed

lemma decimalDigits_length: "n < 10 ^ k \<Longrightarrow> 0 < k \<Longrightarrow> length (decimalDigits n) \<le> k"
proof (induction n arbitrary: k rule: decimalDigits.induct)
  case (1 n)
  show ?case
  proof (cases "n < 10")
    case True
    then show ?thesis using "1.prems" by (simp add: decimalDigits.simps [of n])
  next
    case False
    obtain j where k: "k = Suc j" using "1.prems"(2) by (cases k) auto
    have j: "0 < j" using False "1.prems"(1) k by (cases j) auto
    have "n div 10 < 10 ^ j" using "1.prems"(1) k by (simp add: div_less_iff_less_mult mult.commute)
    then have "length (decimalDigits (n div 10)) \<le> j" using "1.IH" [OF False _ j] by simp
    with False k show ?thesis by (simp add: decimalDigits.simps [of n])
  qed
qed

lemma decimalValue_snoc: "foldl (\<lambda>a d. 10 * a + (d - 48)) 0 (ds @ [d]) = 10 * foldl (\<lambda>a d. 10 * a + (d - 48)) 0 ds + (d - 48)"
  by simp

lemma decimalValue_digits: "foldl (\<lambda>a d. 10 * a + (d - 48)) 0 (decimalDigits n) = n"
proof (induction n rule: decimalDigits.induct)
  case (1 n)
  show ?case
  proof (cases "n < 10")
    case True
    then show ?thesis by (simp add: decimalDigits.simps [of n])
  next
    case False
    with 1 show ?thesis by (simp add: decimalDigits.simps [of n])
  qed
qed

lemma parseInt_decimalDigits: "parseInt (decimalDigits n) = toNumber n"
  by (simp add: parseInt_def decimalValue_digits)

lemma candidates_bound:
  assumes "m \<le> 21" "x < 10 ^ 21" "y \<in> set (candidates x m)"
  shows "y \<le> 10 ^ 21"
proof -
  define u :: nat where "u = 10 ^ m"
  define c :: nat where "c = 10 ^ (21 - m)"
  have cu: "c * u = 10 ^ 21" using assms(1) by (simp add: c_def u_def power_add [symmetric])
  have u0: "0 < u" by (simp add: u_def)
  have "x < c * u" using assms(2) cu by simp
  then have "x div u < c" using u0 by (simp add: div_less_iff_less_mult)
  then have "x div u + 1 \<le> c" by simp
  then have "(x div u + 1) * u \<le> c * u" by (rule mult_le_mono1)
  then have hi: "x div u * u + u \<le> 10 ^ 21" using cu by (simp add: algebra_simps)
  have lo: "x div u * u \<le> 10 ^ 21" using hi by linarith
  have "y = x div u * u \<or> y = x div u * u + u"
    using assms(3) by (auto simp add: candidates_def Let_def u_def split: if_splits)
  with hi lo show ?thesis by auto
qed

lemma bitLength_eq: "2 ^ k \<le> n \<Longrightarrow> n < 2 ^ Suc k \<Longrightarrow> bitLength n = Suc k"
  using bitLength_gt [of k n] bitLength_le [of n "Suc k"] by simp

lemma toNumber_sextillion: "toNumber (10 ^ 21) = Finite (10 ^ 21)"
proof -
  have b: "bitLength (10 ^ 21) = 70"
    using bitLength_eq [of 69 "10 ^ 21"] by simp
  have r: "roundToDouble (10 ^ 21) = 10 ^ 21"
    using b by (simp add: roundToDouble_def Let_def)
  show ?thesis using r b by (simp add: toNumber_def)
qed

lemma shortest_below:
  assumes "toNumber x = Finite x" "x < 10 ^ 21" "m \<le> 21"
  shows "shortest x m < 10 ^ 21"
  using assms(3)
proof (induction m)
  case 0
  show ?case using assms(2) by simp
next
  case (Suc m)
  show ?case
  proof (cases "candidates x (Suc m)")
    case Nil
    with Suc show ?thesis by simp
  next
    case (Cons y ys)
    then have m: "y \<in> set (candidates x (Suc m))" by simp
    then have v: "toNumber y = Finite x" by (rule candidates_valid)
    have "y \<le> 10 ^ 21" using candidates_bound [OF Suc.prems assms(2) m] .
    moreover have "y \<noteq> 10 ^ 21"
    proof
      assume "y = 10 ^ 21"
      with v toNumber_sextillion have "x = 10 ^ 21" by simp
      with assms(2) show False by simp
    qed
    ultimately have "y < 10 ^ 21" by linarith
    with Cons show ?thesis by simp
  qed
qed

lemma numberToString_plain:
  assumes "toNumber P = Finite P" "P < 10 ^ 21"
  shows "\<exists>y. numberToString P = decimalDigits y \<and> toNumber y = Finite P"
proof -
  define y where "y = shortest P (length (decimalDigits P))"
  have "length (decimalDigits P) \<le> 21" using decimalDigits_length [OF assms(2)] by simp
  then have "y < 10 ^ 21" unfolding y_def by (rule shortest_below [OF assms])
  then have "numberToString P = decimalDigits y"
    by (simp add: numberToString_def assms(1) y_def [symmetric])
  moreover have "toNumber y = Finite P" unfolding y_def using assms(1) by (rule shortest_valid)
  ultimately show ?thesis by blast
qed

lemma numberToString_sextillion: "numberToString (10 ^ 21) = js ''1e+21''"
proof -
  have b: "bitLength (10 ^ 22) = 74"
    using bitLength_eq [of 73 "10 ^ 22"] by simp
  have r: "roundToDouble (10 ^ 22) = 10 ^ 22"
    using b by (simp add: roundToDouble_def Let_def)
  have t22: "toNumber (10 ^ 22) = Finite (10 ^ 22)" using r b by (simp add: toNumber_def)
  have t0: "toNumber 0 = Finite 0" by (simp add: toNumber_small)
  have d: "length (decimalDigits (10 ^ 21)) = 22"
    by (simp add: decimalDigits.simps)
  have c22: "candidates (10 ^ 21) 22 = []"
    using t0 t22 by (simp add: candidates_def Let_def)
  have c21: "candidates (10 ^ 21) 21 = 10 ^ 21 # filter (\<lambda>y. toNumber y = Finite (10 ^ 21)) [2 * 10 ^ 21]"
    using toNumber_sextillion by (simp add: candidates_def Let_def)
  have "shortest (10 ^ 21) 22 = shortest (10 ^ 21) 21"
    using shortest.simps(2) [of "10 ^ 21" 21] c22 by simp
  moreover have "shortest (10 ^ 21) 21 = 10 ^ 21"
    using shortest.simps(2) [of "10 ^ 21" 20] c21 by simp
  ultimately have s: "shortest (10 ^ 21) 22 = 10 ^ 21" by simp
  have g: "significand (10 ^ 21) = 1" by (simp add: significand.simps)
  have d1: "decimalDigits 1 = [49]" "decimalDigits 21 = [50, 49]" by (simp_all add: decimalDigits.simps)
  show ?thesis
    using toNumber_sextillion d s g d1 by (simp add: numberToString_def Let_def js_def)
qed

section \<open>Which page a file opens at\<close>

lemma render_djvu:
  assumes "isDjvuFile f"
  shows "render (Some f) page highlight w =
     (let seq = Suc (renderSeq (view w));
          w1 = cleanup (w\<lparr>view := (view w)\<lparr>renderSeq := seq\<rparr>\<rparr>)
      in w1\<lparr>view := (view w1)\<lparr>contentEl := Viewer seq True, iframeEl := Some seq,
                                messageHandler := Some seq, initWait := Some seq\<rparr>,
             listeners := listeners w1 @ [seq],
             timeouts := timeouts w1 @ [seq],
             tasks := (tasks w1)(seq \<mapsto>
               \<lparr>taskFile = f, taskPage = page, taskHighlight = highlight,
                taskPc = AwaitReady, bufferPromise = Pending\<rparr>)\<rparr>)"
  using assms by (auto simp add: render_def isDjvuFile_def Let_def)

lemma cleanup_sel:
  "renderSeq (view (cleanup w)) = renderSeq (view w)"
  "pendingPage (view (cleanup w)) = pendingPage (view w)"
  "pendingHighlight (view (cleanup w)) = pendingHighlight (view w)"
  "viewFile (view (cleanup w)) = viewFile (view w)"
  "activeMenu (view (cleanup w)) = activeMenu (view w)"
  "containerClass (view (cleanup w)) = containerClass (view w)"
  "filePages (cleanup w) = filePages w"
  "saveData (cleanup w) = saveData w"
  "tasks (cleanup w) = tasks w"
  "posted (cleanup w) = posted w"
  "notices (cleanup w) = notices w"
  "reports (cleanup w) = reports w"
  by (simp_all add: cleanup_def Let_def split: option.splits)

lemma cleanup_listeners: "set (listeners (cleanup w)) \<subseteq> set (listeners w)"
  by (auto simp add: cleanup_def Let_def split: option.splits)

lemma onLoadFile_state:
  fixes w :: world
  assumes "isDjvuFile f"
  defines "n \<equiv> Suc (renderSeq (view w))"
  defines "w1 \<equiv> onLoadFile f w"
  shows "renderSeq (view w1) = n" "initWait (view w1) = Some n" "contentEl (view w1) = Viewer n True"
    "pendingPage (view w1) = None" "pendingHighlight (view w1) = None"
    "tasks w1 n = Some \<lparr>taskFile = f, taskPage = (case pendingPage (view w) of Some p \<Rightarrow> Some p | None \<Rightarrow> map_option Finite (filePages w (path f))), taskHighlight = pendingHighlight (view w), taskPc = AwaitReady, bufferPromise = Pending\<rparr>"
    "posted w1 = posted w" "n \<in> set (listeners w1)"
  using assms(1) unfolding n_def w1_def
  by (simp_all add: onLoadFile_def render_djvu Let_def cleanup_sel getFilePage_def)


lemma handleMessage_other_source:
  assumes "contentEl (view w) = Viewer n b" "h \<noteq> n"
  shows "handleMessage h (Some n) d w = w"
  using assms by (simp add: handleMessage_def contentWindow_def split: option.splits)

lemma handleMessage_no_wait:
  assumes "initWait (view w) \<noteq> Some n"
  shows "handleMessage n src DJVU_READY w = w"
  using assms by (simp add: handleMessage_def split: option.splits)

lemma fold_ready_idle:
  assumes "contentEl (view w) = Viewer n b" "initWait (view w) \<noteq> Some n"
  shows "fold (\<lambda>h. handleMessage h (Some n) DJVU_READY) ls w = w"
proof (induction ls)
  case Nil
  show ?case by simp
next
  case (Cons h ls)
  have "handleMessage h (Some n) DJVU_READY w = w"
    using assms by (cases "h = n") (simp_all add: handleMessage_other_source handleMessage_no_wait)
  with Cons show ?case by simp
qed

lemma ready_awaiting:
  assumes "contentEl (view w) = Viewer n b" "initWait (view w) = Some n"
    "tasks w n = Some t" "taskPc t = AwaitReady" "bufferPromise t = Pending"
  defines "w' \<equiv> setPc n AwaitBuffer (clearInitWait n w)"
  shows "handleMessage n (Some n) DJVU_READY w = w'"
  using assms
  by (simp add: handleMessage_def contentWindow_def afterReady_def clearInitWait_def)

lemma fold_ready:
  assumes "contentEl (view w) = Viewer n b" "initWait (view w) = Some n"
    "tasks w n = Some t" "taskPc t = AwaitReady" "bufferPromise t = Pending" "n \<in> set ls"
  shows "fold (\<lambda>h. handleMessage h (Some n) DJVU_READY) ls w = setPc n AwaitBuffer (clearInitWait n w)"
  using assms(6)
proof (induction ls)
  case Nil
  then show ?case by simp
next
  case (Cons h ls)
  show ?case
  proof (cases "h = n")
    case True
    let ?w = "setPc n AwaitBuffer (clearInitWait n w)"
    have 1: "handleMessage h (Some n) DJVU_READY w = ?w"
      using True ready_awaiting [OF assms(1-5)] by simp
    have "contentEl (view ?w) = Viewer n b" "initWait (view ?w) \<noteq> Some n"
      using assms(1) by (simp_all add: setPc_def clearInitWait_def)
    then have "fold (\<lambda>h. handleMessage h (Some n) DJVU_READY) ls ?w = ?w"
      by (rule fold_ready_idle)
    with 1 show ?thesis by simp
  next
    case False
    then have "handleMessage h (Some n) DJVU_READY w = w"
      using assms(1) by (simp add: handleMessage_other_source)
    with False Cons show ?thesis by simp
  qed
qed


lemma open_run:
  fixes w :: world
  assumes djvu: "isDjvuFile f" and link: "parseSubpath s = Inr (late, hl)"
  defines "n \<equiv> Suc (renderSeq (view w))"
  defines "page \<equiv> (case late of Some p \<Rightarrow> Some p | None \<Rightarrow>
                     (case pendingPage (view w) of Some p \<Rightarrow> Some p
                      | None \<Rightarrow> map_option Finite (getFilePage (filePages w) (path f))))"
  defines "highlight \<equiv> (case (case hl of Some h \<Rightarrow> decodeHighlight h | None \<Rightarrow> None) of
                           Some h \<Rightarrow> Some h | None \<Rightarrow> pendingHighlight (view w))"
  shows "posted (run [LoadFile f, EphemeralState (Some s), Message (Some n) DJVU_READY,
                      BufferRead n None, SettleTimeout n] w) =
         posted w @ [\<lparr>target = n, loadBuffer = path f, loadName = name f, loadPage = page,
                      loadHighlight = highlight\<rparr>]"
proof -
  define w0 where "w0 = w\<lparr>view := (view w)\<lparr>viewFile := Some f\<rparr>\<rparr>"
  define w1 where "w1 = onLoadFile f w0"
  define t where "t = \<lparr>taskFile = f, taskPage = (case pendingPage (view w) of Some p \<Rightarrow> Some p | None \<Rightarrow> map_option Finite (filePages w (path f))), taskHighlight = pendingHighlight (view w), taskPc = AwaitReady, bufferPromise = Pending\<rparr>"
  have n0: "n = Suc (renderSeq (view w0))" by (simp add: n_def w0_def)
  have s1: "renderSeq (view w1) = n" "initWait (view w1) = Some n"
    "contentEl (view w1) = Viewer n True" "pendingPage (view w1) = None"
    "pendingHighlight (view w1) = None" "tasks w1 n = Some t" "posted w1 = posted w"
    "n \<in> set (listeners w1)"
  proof -
    have e: "pendingPage (view w0) = pendingPage (view w)" "filePages w0 = filePages w"
      "pendingHighlight (view w0) = pendingHighlight (view w)" "posted w0 = posted w"
      by (simp_all add: w0_def)
    note st = onLoadFile_state [OF djvu, of w0, folded n0 w1_def, unfolded e, folded t_def]
    show "renderSeq (view w1) = n" "initWait (view w1) = Some n"
      "contentEl (view w1) = Viewer n True" "pendingPage (view w1) = None"
      "pendingHighlight (view w1) = None" "tasks w1 n = Some t" "posted w1 = posted w"
      "n \<in> set (listeners w1)"
      by (rule st)+
  qed
  define w2 where "w2 = step (EphemeralState (Some s)) w1"
  have s2: "renderSeq (view w2) = n" "initWait (view w2) = Some n"
    "contentEl (view w2) = Viewer n True" "pendingPage (view w2) = late"
    "pendingHighlight (view w2) = (case hl of Some h \<Rightarrow> decodeHighlight h | None \<Rightarrow> None)"
    "tasks w2 n = Some t" "posted w2 = posted w" "n \<in> set (listeners w2)"
    using s1 link
    by (simp_all add: w2_def step_def setEphemeralState_def Let_def split: option.splits)
  define w3 where "w3 = step (Message (Some n) DJVU_READY) w2"
  have w3: "w3 = setPc n AwaitBuffer (clearInitWait n w2)"
    unfolding w3_def step_def using fold_ready [OF s2(3) s2(2) s2(6) _ _ s2(8)]
    by (simp add: t_def)
  have s3: "renderSeq (view w3) = n" 
    "contentEl (view w3) = Viewer n True" "pendingPage (view w3) = late"
    "pendingHighlight (view w3) = (case hl of Some h \<Rightarrow> decodeHighlight h | None \<Rightarrow> None)"
    "tasks w3 n = Some (t\<lparr>taskPc := AwaitBuffer\<rparr>)" "posted w3 = posted w"
    using s2 by (simp_all add: w3 setPc_def clearInitWait_def)
  define w4 where "w4 = step (BufferRead n None) w3"
  have s4: "contentEl (view w4) = Viewer n True" "pendingPage (view w4) = late"
    "pendingHighlight (view w4) = (case hl of Some h \<Rightarrow> decodeHighlight h | None \<Rightarrow> None)"
    "tasks w4 n = Some (t\<lparr>taskPc := AwaitSettle, bufferPromise := Fulfilled\<rparr>)" "posted w4 = posted w"
    using s3 by (simp_all add: w4_def step_def t_def afterBuffer_def setPc_def Let_def)
  have "posted (step (SettleTimeout n) w4) =
         posted w @ [\<lparr>target = n, loadBuffer = path f, loadName = name f, loadPage = page,
                      loadHighlight = highlight\<rparr>]"
    using s4 by (simp add: step_def afterSettle_def Let_def setPc_def contentWindow_def t_def page_def highlight_def getFilePage_def
        split: option.splits)
  then show ?thesis
    by (simp add: run_def w4_def w3_def w2_def w1_def w0_def step_def [of "LoadFile f"])
qed


lemma docA_djvu: "isDjvuFile docA"
  by (simp add: isDjvuFile_def docA_def asciiLowerCase_def js_def)

lemma parse_page3: "parseSubpath (js ''#page=3'') = Inr (Some (Finite 3), None)"
  by (simp add: parseSubpath_def js_def isDigit_def parseInt_def toNumber_small)

lemma parse_empty: "parseSubpath [] = Inr (None, None)"
  by (simp add: parseSubpath_def)


text \<open>
  An open that nothing disturbs. Opening a DjVu file and letting the open run to its load
  command (handshake, payload, settle delay; a link fragment \<open>s\<close> may arrive through
  \<open>setEphemeralState\<close> after \<open>onLoadFile\<close>, the empty fragment standing for none) sends
  exactly one load command. Its page is the link page when a link intent is pending (set
  before the open, or arriving in the window), otherwise the stored page of the file's
  path, otherwise null; for null the iframe script passes the empty configuration and the
  viewer opens its default page 1. A page 0 is falsy in the iframe script and opens the
  default page as well.
\<close>

lemma open_precedence:
  fixes w :: world
  assumes "isDjvuFile f" and "parseSubpath s = Inr (late, hl)"
  defines "n \<equiv> Suc (renderSeq (view w))"
  defines "link \<equiv> (case late of Some p \<Rightarrow> Some p | None \<Rightarrow> pendingPage (view w))"
  defines "stored \<equiv> getFilePage (filePages w) (path f)"
  shows "\<exists>m. posted (run [LoadFile f, EphemeralState (Some s), Message (Some n) DJVU_READY,
                          BufferRead n None, SettleTimeout n] w) = posted w @ [m] \<and>
             target m = n \<and>
             loadPage m = (case link of Some p \<Rightarrow> Some p | None \<Rightarrow> map_option Finite stored) \<and>
             viewerPage (loadConfig (loadPage m)) =
               (case link of
                  Some p \<Rightarrow> if p = Finite 0 then Finite 1 else p
                | None \<Rightarrow>
                    (case stored of Some q \<Rightarrow> if q = 0 then Finite 1 else Finite q
                     | None \<Rightarrow> Finite 1))"
  unfolding n_def link_def stored_def
  by (simp add: open_run [OF assms(1,2)] loadConfig_def viewerPage_def getFilePage_def
      split: option.splits)

text \<open>The examples of the spec on such an open: stored page 7 and a link to page 3 open
  page 3, no link opens page 7, and neither opens page 1.\<close>

lemma open_precedence_examples:
  "viewerPage (loadConfig (loadPage (last (posted
     (run [LoadFile docA, EphemeralState (Some (js ''#page=3'')), Message (Some 1) DJVU_READY,
           BufferRead 1 None, SettleTimeout 1] (initial (Map.empty(js ''a.djvu'' \<mapsto> 7)) None)))))) = Finite 3 \<and>
   viewerPage (loadConfig (loadPage (last (posted
     (run [LoadFile docA, EphemeralState (Some []), Message (Some 1) DJVU_READY,
           BufferRead 1 None, SettleTimeout 1] (initial (Map.empty(js ''a.djvu'' \<mapsto> 7)) None)))))) = Finite 7 \<and>
   viewerPage (loadConfig (loadPage (last (posted
     (run [LoadFile docA, EphemeralState (Some []), Message (Some 1) DJVU_READY,
           BufferRead 1 None, SettleTimeout 1] (initial Map.empty None)))))) = Finite 1"
proof -
  have i: "renderSeq (view (initial d sd)) = 0" "pendingPage (view (initial d sd)) = None"
    "filePages (initial d sd) = d" "path docA = js ''a.djvu''" for d sd
    by (simp_all add: initial_def docA_def)
  show ?thesis
    using open_precedence [OF docA_djvu parse_page3, of "initial (Map.empty(js ''a.djvu'' \<mapsto> 7)) None"]
      open_precedence [OF docA_djvu parse_empty, of "initial (Map.empty(js ''a.djvu'' \<mapsto> 7)) None"]
      open_precedence [OF docA_djvu parse_empty, of "initial Map.empty None"]
    by (auto simp add: i getFilePage_def)
qed

text \<open>
  C3. The failing case. Page 7 is stored for \<open>b.djvu\<close>. \<open>a.djvu\<close> is open and its render
  stands at the settle delay when a link to \<open>b.djvu#page=3\<close> is followed: \<open>onLoadFile\<close> of
  \<open>b.djvu\<close> runs (render 2), the link fragment arrives through \<open>setEphemeralState\<close>, and then
  the settle timer of render 1 fires. Render 1 was checked against the sequence number
  before the delay only: it takes the pending page 3 for itself, resets it, and posts to an
  iframe that has left the document. Render 2 is left with the stored page: the load
  command of \<open>b.djvu\<close> carries page 7, and the viewer opens page 7 where the link asked for
  page 3. When the timer fires before the fragment arrives, the load command carries
  page 3.
\<close>

theorem stale_settle_takes_link_page:
  "posted (run [LoadFile docA, Message (Some 1) DJVU_READY, BufferRead 1 None, UnloadFile,
                LoadFile docB, EphemeralState (Some (js ''#page=3'')), SettleTimeout 1,
                Message (Some 2) DJVU_READY, BufferRead 2 None, SettleTimeout 2]
             (initial (Map.empty(js ''b.djvu'' \<mapsto> 7)) None)) =
     [\<lparr>target = 2, loadBuffer = js ''b.djvu'', loadName = js ''b.djvu'',
       loadPage = Some (Finite 7), loadHighlight = None\<rparr>] \<and>
   viewerPage (loadConfig (Some (Finite 7))) = Finite 7 \<and>
   posted (run [LoadFile docA, Message (Some 1) DJVU_READY, BufferRead 1 None, UnloadFile,
                LoadFile docB, SettleTimeout 1, EphemeralState (Some (js ''#page=3'')),
                Message (Some 2) DJVU_READY, BufferRead 2 None, SettleTimeout 2]
             (initial (Map.empty(js ''b.djvu'' \<mapsto> 7)) None)) =
     [\<lparr>target = 2, loadBuffer = js ''b.djvu'', loadName = js ''b.djvu'',
       loadPage = Some (Finite 3), loadHighlight = None\<rparr>]"
  by code_simp

section \<open>Writing the page position\<close>

lemma page_changed_frame:
  fixes w :: world and h :: nat and source :: "nat option" and page :: "nat option"
  defines "w' \<equiv> handleMessage h source (DJVU_PAGE_CHANGED page) w"
  shows "view w' = view w" "tasks w' = tasks w" "posted w' = posted w" "notices w' = notices w"
    "listeners w' = listeners w" "timeouts w' = timeouts w" "hostCalls w' = hostCalls w"
    "saveData w' = saveData w"
    "set (reports w') \<subseteq> set (reports w) \<union> (case saveData w of None \<Rightarrow> {} | Some m \<Rightarrow> {UnhandledRejection m})"
  unfolding w'_def
  by (auto simp add: handleMessage_def setFilePage_def assignPage_def split: option.splits)

lemma fold_page_changed_frame:
  fixes w :: world and source :: "nat option" and page :: "nat option" and ls :: "nat list"
  defines "w' \<equiv> fold (\<lambda>h. handleMessage h source (DJVU_PAGE_CHANGED page)) ls w"
  shows "view w' = view w \<and> tasks w' = tasks w \<and> posted w' = posted w \<and> notices w' = notices w \<and>
    listeners w' = listeners w \<and> timeouts w' = timeouts w \<and> hostCalls w' = hostCalls w \<and>
    saveData w' = saveData w \<and>
    set (reports w') \<subseteq> set (reports w) \<union> (case saveData w of None \<Rightarrow> {} | Some m \<Rightarrow> {UnhandledRejection m})"
  unfolding w'_def
proof (induction ls arbitrary: w)
  case Nil
  show ?case by simp
next
  case (Cons h ls)
  let ?w1 = "handleMessage h source (DJVU_PAGE_CHANGED page) w"
  note f = page_changed_frame [of h source page w]
  from Cons [of ?w1] f show ?case
    by (simp del: subset_iff) blast
qed

lemma page_changed_current:
  assumes "tasks w n = Some t" "contentWindow n w = source"
  shows "handleMessage n source (DJVU_PAGE_CHANGED (Some p)) w =
     w\<lparr>filePages := assignPage (filePages w) (path (taskFile t)) p,
       reports := reports w @ (case saveData w of None \<Rightarrow> [] | Some m \<Rightarrow> [UnhandledRejection m])\<rparr>"
  using assms by (simp add: handleMessage_def setFilePage_def split: option.splits)

lemma interactiveA_state:
  "listeners (interactiveA d sd) = [1]"
  "tasks (interactiveA d sd) 1 =
     Some \<lparr>taskFile = docA, taskPage = map_option Finite (d (js ''a.djvu'')), taskHighlight = None, taskPc = Returned,
           bufferPromise = Fulfilled\<rparr>"
  "contentWindow 1 (interactiveA d sd) = Some 1"
  "reports (interactiveA d sd) = []"
  "saveData (interactiveA d sd) = sd"
  "filePages (interactiveA d sd) = d"
  by (simp_all add: interactiveA_def run_def step_def initial_def onLoadFile_def render_def
      docA_def asciiLowerCase_def js_def cleanup_def Let_def handleMessage_def contentWindow_def
      clearInitWait_def afterReady_def setPc_def afterBuffer_def afterSettle_def getFilePage_def
      split: option.splits)


text \<open>
  C7, as amended. A \<open>DJVU_PAGE_CHANGED\<close> message, in any state of the view and whatever the host's
  \<open>saveData\<close> answers, leaves the view, the suspended render calls, the load commands, the
  notices, the listeners and the timers as they were, and the only report it can add is
  the unhandled rejection of the failed write: no exception reaches the handler's caller.
  When the message comes from the iframe of the registered handler, the page is stored in
  memory even if the write fails (the key \<open>__proto__\<close> apart, whose assignment stores
  nothing), and the failure is reported by the engine alone.
\<close>

theorem position_write_contained:
  fixes w :: world and source :: "nat option" and page :: "nat option"
  defines "w' \<equiv> step (Message source (DJVU_PAGE_CHANGED page)) w"
  shows "view w' = view w \<and> tasks w' = tasks w \<and> posted w' = posted w \<and> notices w' = notices w \<and>
    listeners w' = listeners w \<and> timeouts w' = timeouts w \<and> hostCalls w' = hostCalls w \<and>
    (\<forall>r \<in> set (reports w'). r \<in> set (reports w) \<or> (\<exists>m. saveData w = Some m \<and> r = UnhandledRejection m)) \<and>
    (listeners w = [n] \<and> tasks w n = Some t \<and> contentWindow n w = source \<and> page = Some p \<longrightarrow>
       filePages w' =
         (if path (taskFile t) = js ''__proto__'' \<and> filePages w (js ''__proto__'') = None
          then filePages w else (filePages w)(path (taskFile t) \<mapsto> p)) \<and>
       reports w' = reports w @ (case saveData w of None \<Rightarrow> [] | Some m \<Rightarrow> [UnhandledRejection m]))"
proof -
  have a: "view w' = view w \<and> tasks w' = tasks w \<and> posted w' = posted w \<and> notices w' = notices w \<and>
    listeners w' = listeners w \<and> timeouts w' = timeouts w \<and> hostCalls w' = hostCalls w \<and>
    saveData w' = saveData w \<and>
    set (reports w') \<subseteq> set (reports w) \<union> (case saveData w of None \<Rightarrow> {} | Some m \<Rightarrow> {UnhandledRejection m})"
    unfolding w'_def step_def using fold_page_changed_frame [of source page "listeners w" w] by simp
  then have b: "\<forall>r \<in> set (reports w'). r \<in> set (reports w) \<or> (\<exists>m. saveData w = Some m \<and> r = UnhandledRejection m)"
    by (auto split: option.splits)
  have c: "filePages w' =
         (if path (taskFile t) = js ''__proto__'' \<and> filePages w (js ''__proto__'') = None
          then filePages w else (filePages w)(path (taskFile t) \<mapsto> p)) \<and>
       reports w' = reports w @ (case saveData w of None \<Rightarrow> [] | Some m \<Rightarrow> [UnhandledRejection m])"
    if "listeners w = [n]" "tasks w n = Some t" "contentWindow n w = source" "page = Some p"
    using that unfolding w'_def step_def by (auto simp add: page_changed_current assignPage_def)
  from a b c show ?thesis by blast
qed


theorem position_write_contained_witness:
  "view (step (Message (Some 1) (DJVU_PAGE_CHANGED (Some 12)))
           (interactiveA Map.empty (Some (js ''disk full'')))) =
     view (interactiveA Map.empty (Some (js ''disk full''))) \<and>
   posted (step (Message (Some 1) (DJVU_PAGE_CHANGED (Some 12)))
           (interactiveA Map.empty (Some (js ''disk full'')))) =
     posted (interactiveA Map.empty (Some (js ''disk full''))) \<and>
   filePages (step (Message (Some 1) (DJVU_PAGE_CHANGED (Some 12)))
           (interactiveA Map.empty (Some (js ''disk full'')))) (js ''a.djvu'') = Some 12 \<and>
   reports (step (Message (Some 1) (DJVU_PAGE_CHANGED (Some 12)))
           (interactiveA Map.empty (Some (js ''disk full'')))) =
     [UnhandledRejection (js ''disk full'')]"
proof -
  let ?w = "interactiveA Map.empty (Some (js ''disk full''))"
  let ?t = "\<lparr>taskFile = docA, taskPage = None, taskHighlight = None, taskPc = Returned,
             bufferPromise = Fulfilled\<rparr>"
  let ?w' = "step (Message (Some 1) (DJVU_PAGE_CHANGED (Some 12))) ?w"
  have h: "listeners ?w = [1] \<and> tasks ?w 1 = Some ?t \<and> contentWindow 1 ?w = Some 1 \<and>
           Some (12::nat) = Some 12"
    using interactiveA_state [of Map.empty "Some (js ''disk full'')"] by simp
  have "view ?w' = view ?w \<and> posted ?w' = posted ?w \<and>
        filePages ?w' =
          (if path (taskFile ?t) = js ''__proto__'' \<and> filePages ?w (js ''__proto__'') = None
           then filePages ?w else (filePages ?w)(path (taskFile ?t) \<mapsto> 12)) \<and>
        reports ?w' = reports ?w @ (case saveData ?w of None \<Rightarrow> [] | Some m \<Rightarrow> [UnhandledRejection m])"
    using position_write_contained [of "Some 1" "Some 12" ?w 1 ?t 12] h by blast
  moreover have "js ''a.djvu'' \<noteq> js ''__proto__''" by (simp add: js_def)
  ultimately show ?thesis
    by (simp add: interactiveA_state docA_def)
qed

text \<open>
  C7 as stated fails where it says that a failed write is swallowed and logged. The source
  has no \<open>catch\<close> for the promise of \<open>setFilePage\<close> and no logging statement: when
  \<open>saveData\<close> fails at a page change of the open \<open>a.djvu\<close>, the rejection reaches the engine
  unhandled.
\<close>

theorem failed_write_is_unhandled:
  "reports (interactiveA Map.empty (Some (js ''disk full''))) = [] \<and>
   reports (step (Message (Some 1) (DJVU_PAGE_CHANGED (Some 12)))
              (interactiveA Map.empty (Some (js ''disk full'')))) =
     [UnhandledRejection (js ''disk full'')] \<and>
   reports (step (Message (Some 1) (DJVU_PAGE_CHANGED (Some 12)))
              (interactiveA Map.empty None)) = []"
  by code_simp

section \<open>Responses of a superseded session\<close>

text \<open>A message from any window other than the one in the document is ignored by every
  listener, so the ready and error signals of an old surface change nothing.\<close>

lemma stale_surface_message_dropped:
  assumes "contentEl (view w) = Viewer b st" "a \<noteq> b"
  shows "step (Message (Some a) d) w = w"
proof -
  have "fold (\<lambda>h. handleMessage h (Some a) d) ls w = w" for ls
  proof (induction ls)
    case Nil
    show ?case by simp
  next
    case (Cons h ls)
    have "handleMessage h (Some a) d w = w"
      using assms by (simp add: handleMessage_def contentWindow_def split: option.splits)
    with Cons show ?case by simp
  qed
  then show ?thesis by (simp add: step_def)
qed

text \<open>The payload of a superseded render arriving: the render returns at the sequence
  check, or was never resumed after its handshake wait was cleared.\<close>

lemma stale_payload_dropped:
  assumes "tasks w a = Some t" "renderSeq (view w) \<noteq> a" "taskPc t \<noteq> AwaitSettle"
  shows "view (step (BufferRead a None) w) = view w"
    "posted (step (BufferRead a None) w) = posted w"
    "notices (step (BufferRead a None) w) = notices w"
  using assms by (simp_all add: step_def Let_def afterBuffer_def setPc_def)

text \<open>The payload read of a render that still waits for its handshake failing: nothing
  awaits the promise yet, and the view is left alone.\<close>

lemma stale_payload_failure_unawaited:
  assumes "tasks w a = Some t" "taskPc t = AwaitReady"
  shows "view (step (BufferRead a r) w) = view w"
    "posted (step (BufferRead a r) w) = posted w"
    "notices (step (BufferRead a r) w) = notices w"
  using assms by (simp_all add: step_def Let_def split: option.splits)

text \<open>
  C1. The failing case. \<open>a.djvu\<close> is opened and its surface signals ready, so render 1
  awaits the payload; \<open>b.djvu\<close> is opened (render 2, a new surface in the document); then
  the payload read of render 1 fails. The \<open>catch\<close> block of render 1 runs without a
  sequence check: it replaces the viewer of render 2 by the error panel and raises a
  notice, and since the iframe of render 2 has left the document, the load command of
  \<open>b.djvu\<close> is never delivered.
\<close>

theorem stale_payload_failure_wipes_view:
  "contentEl (view (run [LoadFile docA, Message (Some 1) DJVU_READY, UnloadFile, LoadFile docB]
      (initial Map.empty None))) = Viewer 2 True \<and>
   contentEl (view (run [LoadFile docA, Message (Some 1) DJVU_READY, UnloadFile, LoadFile docB,
      BufferRead 1 (Some (js ''gone''))] (initial Map.empty None))) =
     ErrorPanel (js ''Failed to open DjVu: gone'') \<and>
   notices (run [LoadFile docA, Message (Some 1) DJVU_READY, UnloadFile, LoadFile docB,
      BufferRead 1 (Some (js ''gone''))] (initial Map.empty None)) = [js ''DjVu reader: gone''] \<and>
   posted (run [LoadFile docA, Message (Some 1) DJVU_READY, UnloadFile, LoadFile docB,
      BufferRead 1 (Some (js ''gone'')), Message (Some 2) DJVU_READY, BufferRead 2 None,
      SettleTimeout 2] (initial Map.empty None)) = []"
  by code_simp

section \<open>Link intent across opens\<close>

lemma onLoadFile_resets_pending:
  "pendingPage (view (onLoadFile f w)) = None \<and> pendingHighlight (view (onLoadFile f w)) = None"
  by (simp add: onLoadFile_def render_def showError_def Let_def cleanup_sel split: option.splits)

lemma afterSettle_resets_pending:
  assumes "tasks w seq = Some t"
  shows "pendingPage (view (afterSettle seq w)) = None \<and>
         pendingHighlight (view (afterSettle seq w)) = None"
  using assms by (simp add: afterSettle_def Let_def setPc_def)

text \<open>
  C10. The failing case. \<open>a.djvu\<close> is opened, and the link fragment \<open>#page=3\<close> of that
  click arrives through \<open>setEphemeralState\<close> after \<open>onLoadFile\<close> has run. Before the surface
  of \<open>a.djvu\<close> signals ready the user opens \<open>b.djvu\<close>, without a link, for which page 7 is
  stored. Render 1 never reaches the point where it resets the pending page, so
  \<open>onLoadFile\<close> of \<open>b.djvu\<close> finds page 3 pending: the load command of \<open>b.djvu\<close> carries
  page 3, not the stored page 7.
\<close>

theorem link_intent_leaks_to_next_open:
  "posted (run [LoadFile docA, EphemeralState (Some (js ''#page=3'')), UnloadFile, LoadFile docB,
                EphemeralState (Some []), Message (Some 2) DJVU_READY, BufferRead 2 None,
                SettleTimeout 2] (initial (Map.empty(js ''b.djvu'' \<mapsto> 7)) None)) =
     [\<lparr>target = 2, loadBuffer = js ''b.djvu'', loadName = js ''b.djvu'',
       loadPage = Some (Finite 3), loadHighlight = None\<rparr>]"
  by code_simp

section \<open>The locator codec\<close>

lemma hexDigit_round: "n < 16 \<Longrightarrow> isHex (hexDigit n) \<and> hexVal (hexDigit n) = n \<and> hexDigit n \<noteq> 117 \<and> hexDigit n \<noteq> 38"
  by (auto simp add: hexDigit_def isHex_def hexVal_def isDigit_def)

lemma pctByte_value:
  assumes "b < 256"
  shows "hexVal (hexDigit (b div 16)) * 16 + hexVal (hexDigit (b mod 16)) = b"
proof -
  have "b div 16 < 16" using assms by simp
  moreover have "b mod 16 < 16" by simp
  ultimately show ?thesis using hexDigit_round by simp
qed

lemma prepend_Inr [simp]: "prepend xs (Inr ys) = Inr (xs @ ys)"
  by (simp add: prepend_def)

lemma prepend_Inl [simp]: "prepend xs (Inl e) = Inl e"
  by (simp add: prepend_def)

lemma unescape_pctByte:
  assumes "b < 256"
  shows "unescape (pctByte b @ s) = b # unescape s"
proof -
  have h: "b div 16 < 16" "b mod 16 < 16" using assms by simp_all
  show ?thesis
    using hexDigit_round [OF h(1)] hexDigit_round [OF h(2)] pctByte_value [OF assms]
    by (simp add: pctByte_def)
qed

lemma unescape_plain: "c \<noteq> 37 \<Longrightarrow> unescape (c # s) = c # unescape s"
  by simp

lemma decode_pctByte_ascii:
  assumes "b < 128"
  shows "decodeURIComponent (pctByte b @ s) = prepend [b] (decodeURIComponent s)"
proof -
  have h: "b div 16 < 16" "b mod 16 < 16" "b < 256" using assms by simp_all
  show ?thesis
    using hexDigit_round [OF h(1)] hexDigit_round [OF h(2)] pctByte_value [OF h(3)] assms
    by (simp add: pctByte_def utf8Length_def)
qed

lemma decode_plain: "c \<noteq> 37 \<Longrightarrow> decodeURIComponent (c # s) = prepend [c] (decodeURIComponent s)"
  by simp

lemma takeOctets_pctByte:
  assumes "b < 256"
  shows "takeOctets (Suc n) (pctByte b @ s) =
     (case takeOctets n s of None \<Rightarrow> None | Some (bs, r) \<Rightarrow> Some (b # bs, r))"
proof -
  have h: "b div 16 < 16" "b mod 16 < 16" using assms by simp_all
  show ?thesis
    using hexDigit_round [OF h(1)] hexDigit_round [OF h(2)] pctByte_value [OF assms]
    by (simp add: pctByte_def split: option.splits)
qed

lemma decode_pctByte_lead:
  assumes "b < 256" "128 \<le> b" 
  shows "decodeURIComponent (pctByte b @ s) =
     (if utf8Length b = 0 then Inl URIError
      else (case takeOctets (utf8Length b - 1) s of
              None \<Rightarrow> Inl URIError
            | Some (bs, r') \<Rightarrow>
                (case utf8Decode (b # bs) of
                   None \<Rightarrow> Inl URIError
                 | Some cp \<Rightarrow> prepend (utf16Encode cp) (decodeURIComponent r'))))"
proof -
  have h: "b div 16 < 16" "b mod 16 < 16" using assms by simp_all
  have "utf8Length b \<noteq> 1" using assms by (simp add: utf8Length_def)
  then show ?thesis
    using hexDigit_round [OF h(1)] hexDigit_round [OF h(2)] pctByte_value [OF assms(1)]
    by (simp add: pctByte_def Let_def)
qed

lemma d4096: "(cp::nat) div 4096 = cp div 64 div 64"
  by (simp add: div_mult2_eq [symmetric])

lemma d262144: "(cp::nat) div 262144 = cp div 64 div 64 div 64"
  by (simp add: div_mult2_eq [symmetric])

lemma split64: "\<exists>a b. (q::nat) = a * 64 + b \<and> a = q div 64 \<and> b = q mod 64"
  by simp

lemma a3: "(cp::nat) div 4096 * 4096 + cp div 64 mod 64 * 64 + cp mod 64 = cp"
proof -
  obtain q r where 1: "cp = q * 64 + r" "q = cp div 64" "r = cp mod 64"
    using split64 by blast
  obtain a b where 2: "q = a * 64 + b" "a = q div 64" "b = q mod 64"
    using split64 by blast
  have "a * 4096 + b * 64 + r = cp" using 1(1) 2(1) by simp
  then show ?thesis using 1(2,3) 2(2,3) by (simp add: d4096)
qed

lemma a4: "(cp::nat) div 262144 * 262144 + cp div 4096 mod 64 * 4096 + cp div 64 mod 64 * 64 + cp mod 64 = cp"
proof -
  obtain q r where 1: "cp = q * 64 + r" "q = cp div 64" "r = cp mod 64"
    using split64 by blast
  obtain a b where 2: "q = a * 64 + b" "a = q div 64" "b = q mod 64"
    using split64 by blast
  obtain c d where 3: "a = c * 64 + d" "c = a div 64" "d = a mod 64"
    using split64 by blast
  have "c * 262144 + d * 4096 + b * 64 + r = cp" using 1(1) 2(1) 3(1) by simp
  then show ?thesis using 1(2,3) 2(2,3) 3(2,3) by (simp add: d4096 d262144)
qed

lemma utf8Encode_bytes: "cp < 1114112 \<Longrightarrow> list_all (\<lambda>b. b < 256) (utf8Encode cp)"
proof -
  assume a: "cp < 1114112"
  have m: "x mod 64 < 128" for x :: nat
    using mod_less_divisor [of 64 x] by linarith
  have "cp div 262144 < 16" using a by (simp add: div_less_iff_less_mult)
  moreover have "cp < 65536 \<Longrightarrow> cp div 4096 < 32" by (simp add: div_less_iff_less_mult)
  moreover have "cp < 2048 \<Longrightarrow> cp div 64 < 64" by (simp add: div_less_iff_less_mult)
  ultimately show ?thesis by (simp add: utf8Encode_def m)
qed

lemma utf8Encode_nonempty: "utf8Encode cp \<noteq> []"
  by (simp add: utf8Encode_def)

lemma escape_high: "128 \<le> b \<Longrightarrow> b < 256 \<Longrightarrow> escapeUnit b = pctByte b"
  by (auto simp add: escapeUnit_def escapeUnreserved_def isAlpha_def isDigit_def)

lemma takeOctets_0: "takeOctets 0 s = Some ([], s)"
  by simp

lemma decode_escape_cp:
  assumes "isScalar cp"
  shows "decodeURIComponent (escape (utf8Encode cp) @ rest) =
         prepend (utf16Encode cp) (decodeURIComponent rest)"
proof -
  consider (one) "cp < 128" | (two) "128 \<le> cp" "cp < 2048" | (three) "2048 \<le> cp" "cp < 65536"
    | (four) "65536 \<le> cp"
    by linarith
  then show ?thesis
  proof cases
    case one
    show ?thesis
    proof (cases "escapeUnreserved cp")
      case True
      then have "cp \<noteq> 37" by (auto simp add: escapeUnreserved_def isAlpha_def isDigit_def)
      then show ?thesis using one True
        by (simp add: escape_def utf8Encode_def escapeUnit_def utf16Encode_def)
    next
      case False
      then show ?thesis using one decode_pctByte_ascii [of cp rest]
        by (simp add: escape_def utf8Encode_def escapeUnit_def utf16Encode_def)
    qed
  next
    case two
    define a where "a = 192 + cp div 64"
    define b where "b = 128 + cp mod 64"
    have r: "192 \<le> a" "a < 224" "128 \<le> b" "b < 192"
      using two unfolding a_def b_def by (simp_all add: div_less_iff_less_mult)
    have e: "utf8Encode cp = [a, b]" using two by (simp add: utf8Encode_def a_def b_def)
    have d: "utf8Decode [a, b] = Some cp"
      using two by (simp add: utf8Decode_def isCont_def Let_def a_def b_def)
    have l: "utf8Length a \<noteq> 0" "utf8Length a - Suc 0 = Suc 0" using r by (simp_all add: utf8Length_def)
    have "escape [a, b] @ rest = pctByte a @ pctByte b @ rest"
      using r by (simp add: escape_def escape_high)
    moreover have "takeOctets (Suc 0) (pctByte b @ rest) = Some ([b], rest)"
      using r takeOctets_pctByte [of b 0 rest] by simp
    moreover have "a < 256" "128 \<le> a" using r by simp_all
    ultimately show ?thesis
      using decode_pctByte_lead [of a "pctByte b @ rest"]
      by (simp add: e l d)
  next
    case three
    define a where "a = 224 + cp div 4096"
    define b where "b = 128 + cp div 64 mod 64"
    define c where "c = 128 + cp mod 64"
    have "cp div 4096 < 16" using three by (simp add: div_less_iff_less_mult)
    then have r: "224 \<le> a" "a < 240" "128 \<le> b" "b < 192" "128 \<le> c" "c < 192"
      unfolding a_def b_def c_def by simp_all
    have e: "utf8Encode cp = [a, b, c]" using three by (simp add: utf8Encode_def a_def b_def c_def)
    have d: "utf8Decode [a, b, c] = Some cp"
      using three assms a3 [of cp]
      by (simp add: utf8Decode_def isCont_def Let_def a_def b_def c_def isScalar_def)
    have l: "utf8Length a \<noteq> 0" "utf8Length a - Suc 0 = Suc (Suc 0)" using r by (simp_all add: utf8Length_def)
    have "escape [a, b, c] @ rest = pctByte a @ pctByte b @ pctByte c @ rest"
      using r by (simp add: escape_def escape_high)
    moreover have "takeOctets (Suc (Suc 0)) (pctByte b @ pctByte c @ rest) = Some ([b, c], rest)"
      using r takeOctets_pctByte [of b "Suc 0" "pctByte c @ rest"] takeOctets_pctByte [of c 0 rest]
      by simp
    moreover have "a < 256" "128 \<le> a" using r by simp_all
    ultimately show ?thesis
      using decode_pctByte_lead [of a "pctByte b @ pctByte c @ rest"]
      by (simp add: e l d)
  next
    case four
    define a where "a = 240 + cp div 262144"
    define b where "b = 128 + cp div 4096 mod 64"
    define c where "c = 128 + cp div 64 mod 64"
    define d where "d = 128 + cp mod 64"
    have "cp < 1114112" using assms by (simp add: isScalar_def)
    then have "cp div 262144 < 5" by (simp add: div_less_iff_less_mult)
    then have r: "240 \<le> a" "a < 248" "128 \<le> b" "b < 192" "128 \<le> c" "c < 192" "128 \<le> d" "d < 192"
      unfolding a_def b_def c_def d_def by simp_all
    have e: "utf8Encode cp = [a, b, c, d]"
      using four by (simp add: utf8Encode_def a_def b_def c_def d_def)
    have dd: "utf8Decode [a, b, c, d] = Some cp"
      using four assms a4 [of cp]
      by (simp add: utf8Decode_def isCont_def Let_def a_def b_def c_def d_def isScalar_def)
    have l: "utf8Length a \<noteq> 0" "utf8Length a - Suc 0 = Suc (Suc (Suc 0))" using r by (simp_all add: utf8Length_def)
    have "escape [a, b, c, d] @ rest = pctByte a @ pctByte b @ pctByte c @ pctByte d @ rest"
      using r by (simp add: escape_def escape_high)
    moreover have "takeOctets (Suc (Suc (Suc 0))) (pctByte b @ pctByte c @ pctByte d @ rest) =
        Some ([b, c, d], rest)"
      using r takeOctets_pctByte [of b "Suc (Suc 0)" "pctByte c @ pctByte d @ rest"]
        takeOctets_pctByte [of c "Suc 0" "pctByte d @ rest"] takeOctets_pctByte [of d 0 rest]
      by simp
    moreover have "a < 256" "128 \<le> a" using r by simp_all
    ultimately show ?thesis
      using decode_pctByte_lead [of a "pctByte b @ pctByte c @ pctByte d @ rest"]
      by (simp add: e l dd)
  qed
qed

lemma unescape_pctBytes:
  assumes "list_all (\<lambda>b. b < 256) bs"
  shows "unescape (concat (map pctByte bs) @ s) = bs @ unescape s"
  using assms
proof (induction bs)
  case Nil
  show ?case by simp
next
  case (Cons b bs)
  then have "unescape (pctByte b @ (concat (map pctByte bs) @ s)) = b # bs @ unescape s"
    using unescape_pctByte [of b "concat (map pctByte bs) @ s"] by simp
  then show ?case by simp
qed

lemma escape_append: "escape (xs @ ys) = escape xs @ escape ys"
  by (simp add: escape_def)

lemma unreserved_ascii: "uriUnreserved c \<Longrightarrow> c < 128 \<and> c \<noteq> 37 \<and> \<not> isLeadSurrogate c \<and> \<not> isTrailSurrogate c"
  by (auto simp add: uriUnreserved_def isAlpha_def isDigit_def isLeadSurrogate_def isTrailSurrogate_def)

text \<open>One code point: what encodeURIComponent writes for it, read back.\<close>

lemma pair_scalar:
  assumes "isLeadSurrogate c" "isTrailSurrogate d"
  defines "cp \<equiv> (c - 55296) * 1024 + (d - 56320) + 65536"
  shows "isScalar cp" "utf16Encode cp = [c, d]"
proof -
  define x where "x = c - 55296"
  define y where "y = d - 56320"
  have b: "x < 1024" "y < 1024" "c = 55296 + x" "d = 56320 + y"
    using assms(1,2) by (auto simp add: x_def y_def isLeadSurrogate_def isTrailSurrogate_def)
  have cp: "cp = x * 1024 + y + 65536" by (simp add: cp_def x_def y_def)
  have "x * 1024 \<le> 1023 * 1024" using b(1) by simp
  then show "isScalar cp" using b(2) by (simp add: isScalar_def cp)
  have "(x * 1024 + y) div 1024 = x" "(x * 1024 + y) mod 1024 = y" using b(2) by simp_all
  then show "utf16Encode cp = [c, d]" by (simp add: utf16Encode_def cp b)
qed

lemma codec_units:
  assumes "wellFormed t"
  shows "\<exists>E B. encodeURIComponent t = Inr E \<and> unescape E = B \<and> list_all (\<lambda>b. b < 256) B \<and>
           decodeURIComponent (escape B) = Inr t \<and> (t \<noteq> [] \<longrightarrow> B \<noteq> [])"
  using assms
proof (induction t rule: wellFormed.induct)
  case 1
  show ?case by (simp add: escape_def)
next
  case (2 c cs)
  show ?case
  proof (cases "isLeadSurrogate c")
    case True
    with "2.prems" obtain d ds where cs: "cs = d # ds" and d: "isTrailSurrogate d" and w: "wellFormed ds"
      by (auto split: list.splits)
    from "2.IH"(1) [OF True cs] d w obtain E B where ih: "encodeURIComponent ds = Inr E" "unescape E = B"
      "list_all (\<lambda>b. b < 256) B" "decodeURIComponent (escape B) = Inr ds"
      by auto
    define cp where "cp = (c - 55296) * 1024 + (d - 56320) + 65536"
    note sc = pair_scalar [OF True d, folded cp_def]
    have nu: "\<not> uriUnreserved c" "\<not> isTrailSurrogate c"
      using True unreserved_ascii [of c] by (auto simp add: isLeadSurrogate_def isTrailSurrogate_def)
    have by8: "list_all (\<lambda>b. b < 256) (utf8Encode cp)"
      using sc(1) by (simp add: utf8Encode_bytes isScalar_def)
    have e: "encodeURIComponent (c # cs) = Inr (pctEncode cp @ E)"
      using nu True d ih(1) by (simp add: cs cp_def)
    have u: "unescape (pctEncode cp @ E) = utf8Encode cp @ B"
      using unescape_pctBytes [OF by8, of E] ih(2) by (simp add: pctEncode_def)
    have "decodeURIComponent (escape (utf8Encode cp @ B)) = Inr (c # cs)"
      using decode_escape_cp [OF sc(1), of "escape B"] ih(4) sc(2) by (simp add: escape_append cs)
    with e u by8 ih(3) show ?thesis by (simp add: utf8Encode_nonempty)
  next
    case False
    with "2.prems" have p: "\<not> isTrailSurrogate c" "c < 65536" "wellFormed cs" by simp_all
    from "2.IH"(2) [OF False] p obtain E B where ih: "encodeURIComponent cs = Inr E" "unescape E = B"
      "list_all (\<lambda>b. b < 256) B" "decodeURIComponent (escape B) = Inr cs"
      by auto
    have sc: "isScalar c" using False p by (auto simp add: isScalar_def isLeadSurrogate_def isTrailSurrogate_def)
    have by8: "list_all (\<lambda>b. b < 256) (utf8Encode c)"
      using sc by (simp add: utf8Encode_bytes isScalar_def)
    have d: "decodeURIComponent (escape (utf8Encode c @ B)) = Inr (c # cs)"
      using decode_escape_cp [OF sc, of "escape B"] ih(4) p(2) by (simp add: escape_append utf16Encode_def)
    show ?thesis
    proof (cases "uriUnreserved c")
      case True
      then have a: "c < 128" "c \<noteq> 37" using unreserved_ascii by simp_all
      have "encodeURIComponent (c # cs) = Inr (c # E)" using True ih(1) by simp
      moreover have "unescape (c # E) = utf8Encode c @ B" using a ih(2) by (simp add: utf8Encode_def)
      ultimately show ?thesis using d by8 ih(3) by (simp add: utf8Encode_nonempty)
    next
      case nr: False
      have "encodeURIComponent (c # cs) = Inr (pctEncode c @ E)" using nr False p ih(1) by simp
      moreover have "unescape (pctEncode c @ E) = utf8Encode c @ B"
        using unescape_pctBytes [OF by8, of E] ih(2) by (simp add: pctEncode_def)
      ultimately show ?thesis using d by8 ih(3) by (simp add: utf8Encode_nonempty)
    qed
  qed
qed

lemma b64_props:
  assumes "n < 64"
  shows "isB64 (b64 n)" "b64Val (b64 n) = n" "b64 n < 128"
  using assms by (auto simp add: b64_def isB64_def b64Val_def isAlpha_def isDigit_def)

lemma isB64_props: "isB64 c \<Longrightarrow> c \<noteq> 61 \<and> \<not> isAsciiWhitespace c \<and> c < 128"
  by (auto simp add: isB64_def isAlpha_def isDigit_def isAsciiWhitespace_def)

lemma sextets:
  fixes a b c :: nat
  assumes "a < 256" "b < 256" "c < 256"
  shows "a div 4 < 64" "(a mod 4) * 16 + b div 16 < 64" "(b mod 16) * 4 + c div 64 < 64"
    "c mod 64 < 64" "(a mod 4) * 16 < 64" "(b mod 16) * 4 < 64"
proof -
  have 1: "a mod 4 < 4" "b mod 16 < 16" by simp_all
  have 2: "b div 16 < 16" "c div 64 < 4" "a div 4 < 64"
    using assms by (simp_all add: div_less_iff_less_mult)
  show "a div 4 < 64" by (rule 2)
  show "(a mod 4) * 16 + b div 16 < 64" using 1 2 by linarith
  show "(b mod 16) * 4 + c div 64 < 64" using 1 2 by linarith
  show "c mod 64 < 64" by simp
  show "(a mod 4) * 16 < 64" using 1 by linarith
  show "(b mod 16) * 4 < 64" using 1 by linarith
qed

lemma encode_body_pad:
  "\<exists>p. base64Encode B = base64Body B @ p \<and> (p = [] \<or> p = [61] \<or> p = [61, 61])"
  by (induction B rule: base64Encode.induct) auto

lemma body_isB64: "list_all (\<lambda>b. b < 256) B \<Longrightarrow> list_all isB64 (base64Body B)"
proof (induction B rule: base64Body.induct)
  case (1 a b c r)
  then show ?case using sextets [of a b c] by (simp add: b64_props)
next
  case (2 a b)
  then show ?case using sextets [of a b 0] by (simp add: b64_props)
next
  case (3 a)
  then show ?case using sextets [of a 0 0] by (simp add: b64_props)
next
  case 4
  show ?case by simp
qed

lemma encode_length: "length (base64Encode B) mod 4 = 0"
  by (induction B rule: base64Encode.induct) simp_all

lemma body_length: "length (base64Body B) mod 4 \<noteq> 1"
  by (induction B rule: base64Body.induct) simp_all

lemma body_nonempty: "B \<noteq> [] \<Longrightarrow> base64Body B \<noteq> []"
  by (induction B rule: base64Body.induct) simp_all


lemma stripPadding_body:
  assumes "list_all isB64 X" "length (X @ p) mod 4 = 0" "p = [] \<or> p = [61] \<or> p = [61, 61]"
  shows "stripPadding (X @ p) = X"
proof -
  have l: "X \<noteq> [] \<Longrightarrow> last X \<noteq> 61"
    using assms(1) isB64_props [of "last X"] by (auto simp add: list_all_iff)
  from assms(3) consider "p = []" | "p = [61]" | "p = [61, 61]" by blast
  then show ?thesis
  proof cases
    case 1
    then show ?thesis using l by (auto simp add: stripPadding_def)
  next
    case 2
    then show ?thesis using l assms(2) by (auto simp add: stripPadding_def butlast_append)
  next
    case 3
    then show ?thesis using assms(2) by (auto simp add: stripPadding_def butlast_append)
  qed
qed

lemma decode_body:
  "list_all (\<lambda>b. b < 256) B \<Longrightarrow> base64Decode (map b64Val (base64Body B)) = B"
proof (induction B rule: base64Body.induct)
  case (1 a b c r)
  then have lt: "a < 256" "b < 256" "c < 256" and r: "list_all (\<lambda>b. b < 256) r" by simp_all
  note s = sextets [OF lt]
  have 1: "a div 4 * 4 + (a mod 4 * 16 + b div 16) div 16 = a"
  proof -
    have "b div 16 < 16" using lt by (simp add: div_less_iff_less_mult)
    then have "(a mod 4 * 16 + b div 16) div 16 = a mod 4" by simp
    then show ?thesis by simp
  qed
  have 2: "(a mod 4 * 16 + b div 16) mod 16 * 16 + (b mod 16 * 4 + c div 64) div 4 = b"
  proof -
    have "b div 16 < 16" using lt by (simp add: div_less_iff_less_mult)
    then have x: "(a mod 4 * 16 + b div 16) mod 16 = b div 16" by simp
    have "c div 64 < 4" using lt by (simp add: div_less_iff_less_mult)
    then have "(b mod 16 * 4 + c div 64) div 4 = b mod 16" by simp
    with x show ?thesis by simp
  qed
  have 3: "(b mod 16 * 4 + c div 64) mod 4 * 64 + c mod 64 = c"
  proof -
    have "c div 64 < 4" using lt by (simp add: div_less_iff_less_mult)
    then have "(b mod 16 * 4 + c div 64) mod 4 = c div 64" by simp
    then show ?thesis by simp
  qed
  show ?case using "1.IH" [OF r] s 1 2 3 by (simp add: b64_props)
next
  case (2 a b)
  then have lt: "a < 256" "b < 256" by simp_all
  note s = sextets [OF lt, of 0]
  have bd: "b div 16 < 16" using lt by (simp add: div_less_iff_less_mult)
  have 1: "a div 4 * 4 + (a mod 4 * 16 + b div 16) div 16 = a"
  proof -
    have "(a mod 4 * 16 + b div 16) div 16 = a mod 4" using bd by simp
    then show ?thesis by simp
  qed
  have 2: "(a mod 4 * 16 + b div 16) mod 16 * 16 + (b mod 16 * 4) div 4 = b"
  proof -
    have "(a mod 4 * 16 + b div 16) mod 16 = b div 16" using bd by simp
    then show ?thesis by simp
  qed
  show ?case using s 1 2 by (simp add: b64_props)
next
  case (3 a)
  then have lt: "a < 256" by simp
  note s = sextets [OF lt, of 0 0]
  have "a div 4 * 4 + (a mod 4 * 16) div 16 = a" by simp
  then show ?case using s by (simp add: b64_props)
next
  case 4
  show ?case by simp
qed

lemma atob_btoa:
  assumes "list_all (\<lambda>b. b < 256) B"
  shows "btoa B = Inr (base64Encode B)" "atob (base64Encode B) = Inr B"
    "list_all (\<lambda>c. c < 128) (base64Encode B)" "B \<noteq> [] \<Longrightarrow> base64Encode B \<noteq> []"
proof -
  show "btoa B = Inr (base64Encode B)" using assms by (simp add: btoa_def)
  obtain p where p: "base64Encode B = base64Body B @ p" "p = [] \<or> p = [61] \<or> p = [61, 61]"
    using encode_body_pad by blast
  have b: "list_all isB64 (base64Body B)" using assms by (rule body_isB64)
  then have all: "\<forall>c \<in> set (base64Encode B). c < 128 \<and> \<not> isAsciiWhitespace c"
    using p isB64_props by (auto simp add: list_all_iff isAsciiWhitespace_def)
  then show "list_all (\<lambda>c. c < 128) (base64Encode B)" by (simp add: list_all_iff)
  have f: "filter (\<lambda>c. \<not> isAsciiWhitespace c) (base64Encode B) = base64Encode B"
    using all by (simp add: filter_id_conv)
  have s: "stripPadding (base64Encode B) = base64Body B"
    using stripPadding_body [OF b _ p(2)] encode_length [of B] by (simp add: p(1))
  show "atob (base64Encode B) = Inr B"
    using b body_length [of B] decode_body [OF assms] by (simp add: atob_def f s)
  show "base64Encode B \<noteq> []" if "B \<noteq> []"
    using that body_nonempty [of B] p(1) by simp
qed

lemma ascii_token:
  assumes "list_all (\<lambda>c. c < 128) s"
  shows "\<exists>T. encodeURIComponent s = Inr T \<and> decodeURIComponent T = Inr s \<and> 38 \<notin> set T \<and>
             (s \<noteq> [] \<longrightarrow> T \<noteq> [])"
  using assms
proof (induction s)
  case Nil
  show ?case by simp
next
  case (Cons c s)
  then obtain T where ih: "encodeURIComponent s = Inr T" "decodeURIComponent T = Inr s" "38 \<notin> set T"
    by auto
  have c: "c < 128" using Cons.prems by simp
  show ?case
  proof (cases "uriUnreserved c")
    case True
    then have "c \<noteq> 37" "c \<noteq> 38" by (auto simp add: uriUnreserved_def isAlpha_def isDigit_def)
    then show ?thesis using True ih by simp
  next
    case False
    have ns: "\<not> isTrailSurrogate c" "\<not> isLeadSurrogate c"
      using c by (simp_all add: isTrailSurrogate_def isLeadSurrogate_def)
    have pe: "pctEncode c = pctByte c" using c by (simp add: pctEncode_def utf8Encode_def)
    have e: "encodeURIComponent (c # s) = Inr (pctByte c @ T)"
      using False ns ih(1) by (simp add: pe)
    have d: "decodeURIComponent (pctByte c @ T) = Inr (c # s)"
      using decode_pctByte_ascii [OF c, of T] ih(2) by simp
    have h: "c div 16 < 16" "c mod 16 < 16" using c by (simp_all add: div_less_iff_less_mult)
    have "38 \<notin> set (pctByte c)"
      using hexDigit_round [OF h(1)] hexDigit_round [OF h(2)] by (simp add: pctByte_def)
    with e d ih(3) show ?thesis by (simp add: pctByte_def)
  qed
qed

lemma matchPage_here:
  assumes "ds \<noteq> []" "list_all isDigit ds"
  shows "matchPage (js ''page='' @ ds @ 38 # rest) = Some ds"
proof -
  have "takeWhile isDigit (ds @ 38 # rest) = ds"
    using assms(2) by (simp add: takeWhile_append2 list_all_iff isDigit_def [of 38] takeWhile_tail)
  then show ?thesis using assms(1) by (simp add: js_def)
qed

lemma matchPage_hash:
  assumes "ds \<noteq> []" "list_all isDigit ds"
  shows "matchPage (35 # js ''page='' @ ds @ 38 # rest) = Some ds"
  using matchPage_here [OF assms, of rest] by (simp add: js_def)

lemma matchQ_skip:
  assumes "113 \<notin> set pre" "T \<noteq> []" "38 \<notin> set T"
  shows "matchQ (pre @ js ''q='' @ T) = Some T"
  using assms(1)
proof (induction pre)
  case Nil
  have tw: "takeWhile (\<lambda>x. x \<noteq> 38) T = T" using assms(3) by (auto simp add: takeWhile_eq_all_conv)
  show ?case by (simp add: js_def tw assms(2))
next
  case (Cons c pre)
  then have "c \<noteq> 113" by auto
  then have "take 2 (c # pre @ js ''q='' @ T) \<noteq> js ''q=''" by (auto simp add: js_def)
  with Cons show ?case by simp
qed

lemma digits_no_q: "list_all isDigit ds \<Longrightarrow> 113 \<notin> set ds"
  by (auto simp add: list_all_iff isDigit_def)

lemma parse_fragment:
  assumes "T \<noteq> []" "38 \<notin> set T" "decodeURIComponent T = Inr h"
    and "isNumber P" "P < 10 ^ 21"
  shows "parseSubpath (locatorFragment P T) = Inr (Some (Finite P), Some h)"
    "parseSubpath (35 # locatorFragment P T) = Inr (Some (Finite P), Some h)"
proof -
  obtain y where y: "numberToString P = decimalDigits y" "toNumber y = Finite P"
    using numberToString_plain [of P] assms(4,5) by (auto simp add: isNumber_def)
  have d: "numberToString P \<noteq> [] \<and> list_all isDigit (numberToString P)"
    using decimalDigits_digits [of y] by (simp add: y(1))
  have pi: "parseInt (numberToString P) = Finite P"
    by (simp add: y parseInt_decimalDigits)
  have f: "locatorFragment P T = js ''page='' @ numberToString P @ 38 # js ''q='' @ T"
    by (simp add: locatorFragment_def js_def)
  have mp: "matchPage (locatorFragment P T) = Some (numberToString P)"
    "matchPage (35 # locatorFragment P T) = Some (numberToString P)"
    using d matchPage_here [of "numberToString P" "js ''q='' @ T"]
      matchPage_hash [of "numberToString P" "js ''q='' @ T"] by (simp_all add: f)
  have nq: "113 \<notin> set (js ''page='' @ numberToString P @ [38])"
    "113 \<notin> set (35 # js ''page='' @ numberToString P @ [38])"
    using d digits_no_q [of "numberToString P"] by (simp_all add: js_def)
  have mq: "matchQ (locatorFragment P T) = Some T" "matchQ (35 # locatorFragment P T) = Some T"
    using matchQ_skip [OF nq(1) assms(1,2)] matchQ_skip [OF nq(2) assms(1,2)]
    by (simp_all add: f)
  show "parseSubpath (locatorFragment P T) = Inr (Some (Finite P), Some h)"
    using assms(3)
    by (simp del: matchPage.simps matchQ.simps add: parseSubpath_def mp(1) mq(1) pi)
  show "parseSubpath (35 # locatorFragment P T) = Inr (Some (Finite P), Some h)"
    using assms(3)
    by (simp del: matchPage.simps matchQ.simps add: parseSubpath_def mp(2) mq(2) pi)
qed


text \<open>
  C2, as amended. For every page \<open>P\<close> from 1 that is a Number below \<open>10 ^ 21\<close> and every
  well-formed string \<open>Q\<close> that is not empty, the token
  \<open>encodeURIComponent(btoa(unescape(encodeURIComponent(Q))))\<close> exists, and
  \<open>setEphemeralState\<close> applied to the fragment \<open>page=P&q=token\<close>, with or without the
  leading \<open>#\<close>, makes exactly page \<open>P\<close> and quote \<open>Q\<close> pending.
\<close>

theorem locator_round_trip:
  assumes "isNumber P" "1 \<le> P" "P < 10 ^ 21" "wellFormed Q" "Q \<noteq> []"
  shows "\<exists>token. encodeText Q = Inr token \<and>
     setEphemeralState (Some (locatorFragment P token)) v =
       Inr (v\<lparr>pendingPage := Some (Finite P), pendingHighlight := Some Q\<rparr>) \<and>
     setEphemeralState (Some (35 # locatorFragment P token)) v =
       Inr (v\<lparr>pendingPage := Some (Finite P), pendingHighlight := Some Q\<rparr>)"
proof -
  obtain E B where u: "encodeURIComponent Q = Inr E" "unescape E = B" "list_all (\<lambda>b. b < 256) B"
    "decodeURIComponent (escape B) = Inr Q" "B \<noteq> []"
    using codec_units [OF assms(4)] assms(5) by auto
  note b = atob_btoa [OF u(3)]
  obtain T where t: "encodeURIComponent (base64Encode B) = Inr T"
    "decodeURIComponent T = Inr (base64Encode B)" "38 \<notin> set T" "T \<noteq> []"
    using ascii_token [OF b(3)] b(4) [OF u(5)] by auto
  have e: "encodeText Q = Inr T" by (simp add: encodeText_def u(1,2) b(1) t(1))
  have h: "decodeHighlight (base64Encode B) = Some Q"
    by (simp add: decodeHighlight_def b(2) u(4))
  note p = parse_fragment [OF t(4) t(3) t(2) assms(1) assms(3)]
  have "setEphemeralState (Some (locatorFragment P T)) v =
       Inr (v\<lparr>pendingPage := Some (Finite P), pendingHighlight := Some Q\<rparr>)"
    by (simp del: matchPage.simps matchQ.simps add: setEphemeralState_def p(1) h)
  moreover have "setEphemeralState (Some (35 # locatorFragment P T)) v =
       Inr (v\<lparr>pendingPage := Some (Finite P), pendingHighlight := Some Q\<rparr>)"
    by (simp del: matchPage.simps matchQ.simps add: setEphemeralState_def p(2) h)
  ultimately show ?thesis using e by blast
qed

section \<open>The citation builder and the decoder on concrete fragments\<close>

lemma splitNL_nonempty: "splitNL s \<noteq> []"
  by (induction s) (auto split: list.splits)

lemma lines_refine: "splitNL (replaceCR (replaceCRLF t)) = specLines t"
proof (induction t rule: specLines.induct)
  case 1
  show ?case by (simp add: replaceCR_def)
next
  case (2 c)
  show ?case by (simp add: replaceCR_def)
next
  case (3 c d r)
  show ?case
  proof (cases "c = 13 \<and> d = 10")
    case True
    with 3 show ?thesis by (simp add: replaceCR_def)
  next
    case False
    have s: "replaceCR (x # xs) = (if x = 13 then 10 else x) # replaceCR xs" for x xs
      by (simp add: replaceCR_def)
    from False 3 show ?thesis
      by (auto simp add: s split: list.splits)
  qed
qed

lemma trimEnd_prefix: "trimEnd (js ''> '' @ l) = specQuoteLine l"
proof -
  have g: "\<not> isWhiteSpace 62" "isWhiteSpace 32" by (simp_all add: isWhiteSpace_def)
  show ?thesis
  proof (cases "list_all isWhiteSpace l")
    case True
    then have "dropWhile isWhiteSpace (rev l) = []" by (simp add: list_all_iff)
    then show ?thesis using True g
      by (simp add: trimEnd_def specQuoteLine_def js_def dropWhile_append)
  next
    case False
    then have "dropWhile isWhiteSpace (rev l) \<noteq> []" by (auto simp add: list_all_iff)
    then show ?thesis using False
      by (auto simp add: trimEnd_def specQuoteLine_def js_def dropWhile_append list_all_iff)
  qed
qed

lemma quoteLines_spec: "quoteLines text = map specQuoteLine (specLines text)"
  by (simp add: quoteLines_def lines_refine trimEnd_prefix)

lemma link_shape:
  "linkWithHighlight f page t =
     js ''[['' @ path f @ js ''#'' @ locatorFragment page t @ js ''|'' @ name f @
     js '' (page '' @ numberToString page @ js '')]]''"
  by (simp add: linkWithHighlight_def locatorFragment_def js_def)

lemma encodeText_total:
  assumes "wellFormed text"
  shows "\<exists>token. encodeText text = Inr token"
proof -
  obtain E B where u: "encodeURIComponent text = Inr E" "unescape E = B" "list_all (\<lambda>b. b < 256) B"
    using codec_units [OF assms] by auto
  note b = atob_btoa [OF u(3)]
  obtain T where "encodeURIComponent (base64Encode B) = Inr T"
    using ascii_token [OF b(3)] by auto
  then show ?thesis by (simp add: encodeText_def u(1,2) b(1))
qed


text \<open>
  C8, as amended. For a view with a file and an iframe, a selection that is not empty and
  is well-formed text, and any page: the menu copies the selection unchanged; the link
  \<open>[[path#page=N&q=token|name (page N)]]\<close> with the token of the selection; and the quote
  block, which is the lines of the selection (split at CR LF, CR or LF), each prefixed
  with \<open>> \<close> and stripped of trailing whitespace, joined by newlines, followed by an empty
  line and the link.
\<close>

theorem citation_builder:
  assumes "viewFile v = Some f" "iframeEl v = Some i" "text \<noteq> []" "wellFormed text"
  shows "\<exists>token link. encodeText text = Inr token \<and>
     link = js ''[['' @ path f @ js ''#page='' @ numberToString page @ js ''&q='' @ token @
            js ''|'' @ name f @ js '' (page '' @ numberToString page @ js '')]]'' \<and>
     showSelectionContextMenu text page v =
       Inr (v\<lparr>activeMenu := Some \<lparr>copyText = text,
              copyQuote = joinNL (map specQuoteLine (specLines text)) @ [10, 10] @ link,
              copyLink = link\<rparr>\<rparr>)"
proof -
  obtain token where t: "encodeText text = Inr token"
    using encodeText_total [OF assms(4)] by blast
  show ?thesis
    using assms(1-3) t
    by (simp add: showSelectionContextMenu_def Let_def quoteBlock_def quoteLines_spec
        linkWithHighlight_def)
qed

lemmas js_eval = js_def isWhiteSpace_def isDigit_def isAlpha_def isHex_def hexVal_def hexDigit_def
  pctByte_def utf8Encode_def utf8Decode_def isCont_def utf16Encode_def isLeadSurrogate_def
  isTrailSurrogate_def uriUnreserved_def pctEncode_def utf8Length_def escapeUnreserved_def
  escapeUnit_def escape_def b64_def isB64_def b64Val_def btoa_def isAsciiWhitespace_def
  stripPadding_def atob_def parseInt_def toNumber_small encodeText_def decodeHighlight_def
  parseSubpath_def setEphemeralState_def Let_def

theorem citation_builder_witness:
  "showSelectionContextMenu (js ''line one'' @ [10] @ js ''line two'') 5
     (freshView\<lparr>viewFile := Some docDjvu, iframeEl := Some 1\<rparr>) =
   Inr (freshView\<lparr>viewFile := Some docDjvu, iframeEl := Some 1,
     activeMenu := Some
       \<lparr>copyText = js ''line one'' @ [10] @ js ''line two'',
        copyQuote = js ''> line one'' @ [10] @ js ''> line two'' @ [10, 10] @
          js ''[[doc.djvu#page=5&q=bGluZSBvbmUKbGluZSB0d28%3D|doc.djvu (page 5)]]'',
        copyLink = js ''[[doc.djvu#page=5&q=bGluZSBvbmUKbGluZSB0d28%3D|doc.djvu (page 5)]]''\<rparr>\<rparr>)"
proof -
  let ?text = "js ''line one'' @ [10] @ js ''line two''"
  let ?v = "freshView\<lparr>viewFile := Some docDjvu, iframeEl := Some 1\<rparr>"
  have h: "viewFile ?v = Some docDjvu" "iframeEl ?v = Some 1" "?text \<noteq> []" "wellFormed ?text"
    by (simp_all add: js_def isLeadSurrogate_def isTrailSurrogate_def)
  have e: "encodeText ?text = Inr (js ''bGluZSBvbmUKbGluZSB0d28%3D'')"
    by (simp add: js_eval)
  have q: "joinNL (map specQuoteLine (specLines ?text)) = js ''> line one'' @ [10] @ js ''> line two''"
    by (simp add: js_eval specQuoteLine_def trimEnd_def)
  have l: "js ''[['' @ path docDjvu @ js ''#page='' @ numberToString 5 @ js ''&q='' @
      js ''bGluZSBvbmUKbGluZSB0d28%3D'' @ js ''|'' @ name docDjvu @ js '' (page '' @
      numberToString 5 @ js '')]]'' =
      js ''[[doc.djvu#page=5&q=bGluZSBvbmUKbGluZSB0d28%3D|doc.djvu (page 5)]]''"
    by (simp add: js_def docDjvu_def numberToString_small decimalDigits.simps)
  from citation_builder [OF h, of 5] show ?thesis
    unfolding e q by (auto simp add: l)
qed

text \<open>
  C8 as stated fails for a selection with a surrogate that has no partner:
  \<open>encodeURIComponent\<close> throws URIError, nothing in \<open>showSelectionContextMenu\<close> or in the
  message handler catches it, and no menu is built.
\<close>

theorem citation_builder_lone_surrogate:
  "trim [55357] = [55357] \<and>
   showSelectionContextMenu [55357] 5 (freshView\<lparr>viewFile := Some docDjvu, iframeEl := Some 1\<rparr>) =
     Inl URIError"
  by (simp add: showSelectionContextMenu_def freshView_def encodeText_def trim_def trimStart_def
      trimEnd_def isWhiteSpace_def uriUnreserved_def isAlpha_def isDigit_def
      isTrailSurrogate_def isLeadSurrogate_def)

theorem locator_round_trip_witness:
  "setEphemeralState (Some (js ''#page=5&q=0J%2Fwn5iA'')) freshView =
     Inr (freshView\<lparr>pendingPage := Some (Finite 5), pendingHighlight := Some [1055, 55357, 56832]\<rparr>)"
proof -
  have h: "isNumber 5" "(1::nat) \<le> 5" "(5::nat) < 10 ^ 21" "wellFormed [1055, 55357, 56832]"
    "[1055, 55357, 56832] \<noteq> ([]::nat list)"
    by (simp_all add: isNumber_def toNumber_small isLeadSurrogate_def isTrailSurrogate_def)
  have e: "encodeText [1055, 55357, 56832] = Inr (js ''0J%2Fwn5iA'')" by (simp add: js_eval)
  have f: "35 # locatorFragment 5 (js ''0J%2Fwn5iA'') = js ''#page=5&q=0J%2Fwn5iA''"
    by (simp add: locatorFragment_def js_def numberToString_small decimalDigits.simps)
  from locator_round_trip [OF h, of freshView] show ?thesis
    unfolding e by (auto simp add: f)
qed


text \<open>
  C2 as stated fails in three places. For the empty quote the token is empty, the \<open>q\<close>
  pattern needs a character after \<open>q=\<close>, and so the fragment \<open>page=5&q=\<close> decodes to page 5
  and no quote; the builder never produces that fragment: it returns at its guard for an
  empty text. The Number \<open>10 ^ 21\<close> is the first that a template literal prints with an
  exponent, \<open>1e+21\<close>: the page pattern reads the digit before the \<open>e\<close>, and the fragment
  decodes to page 1. And a string with a surrogate that has no partner has no token:
  \<open>encodeURIComponent\<close> throws URIError.
\<close>

theorem locator_round_trip_fails:
  "encodeText [] = Inr [] \<and>
   decodeFragment (locatorFragment 5 []) = Inr (Some (Finite 5), None) \<and>
   decodeFragment (locatorFragment 5 []) \<noteq> Inr (Some (Finite 5), Some []) \<and>
   showSelectionContextMenu [] 5 (freshView\<lparr>viewFile := Some docDjvu, iframeEl := Some 1\<rparr>) =
     Inr (freshView\<lparr>viewFile := Some docDjvu, iframeEl := Some 1\<rparr>) \<and>
   isNumber 1000000000000000000000 \<and>
   encodeText (js ''A'') = Inr (js ''QQ%3D%3D'') \<and>
   locatorFragment 1000000000000000000000 (js ''QQ%3D%3D'') = js ''page=1e+21&q=QQ%3D%3D'' \<and>
   decodeFragment (locatorFragment 1000000000000000000000 (js ''QQ%3D%3D'')) =
     Inr (Some (Finite 1), Some (js ''A'')) \<and>
   encodeText [55357] = Inl URIError"
proof -
  have a: "encodeText [] = Inr [] \<and>
     decodeFragment (locatorFragment 5 []) = Inr (Some (Finite 5), None) \<and>
     decodeFragment (locatorFragment 5 []) \<noteq> Inr (Some (Finite 5), Some []) \<and>
     showSelectionContextMenu [] 5 (freshView\<lparr>viewFile := Some docDjvu, iframeEl := Some 1\<rparr>) =
       Inr (freshView\<lparr>viewFile := Some docDjvu, iframeEl := Some 1\<rparr>)"
    by (simp add: js_eval decodeFragment_def locatorFragment_def numberToString_small
        decimalDigits.simps showSelectionContextMenu_def freshView_def)
  have n: "isNumber 1000000000000000000000"
    using toNumber_sextillion by (simp add: isNumber_def)
  have e: "encodeText (js ''A'') = Inr (js ''QQ%3D%3D'')" by (simp add: js_eval)
  have f: "locatorFragment 1000000000000000000000 (js ''QQ%3D%3D'') = js ''page=1e+21&q=QQ%3D%3D''"
    using numberToString_sextillion by (simp add: locatorFragment_def js_def)
  have d: "decodeFragment (js ''page=1e+21&q=QQ%3D%3D'') = Inr (Some (Finite 1), Some (js ''A''))"
    by (simp add: js_eval decodeFragment_def freshView_def)
  have s: "encodeText [55357] = Inl URIError"
    by (simp add: encodeText_def uriUnreserved_def isAlpha_def isDigit_def isTrailSurrogate_def
        isLeadSurrogate_def)
  from a n e f d s show ?thesis by simp
qed


text \<open>
  C6. The failing case. In the fragment \<open>page=42&q=%\<close> the \<open>q\<close> group is \<open>%\<close>; the
  \<open>decodeURIComponent\<close> applied to the group stands before the \<open>try\<close>, and its URIError
  leaves \<open>setEphemeralState\<close>: no quote null, and the page is not made pending either.
\<close>

theorem malformed_escape_throws:
  "setEphemeralState (Some (js ''page=42&q=%'')) v = Inl URIError"
  by (simp add: setEphemeralState_def parseSubpath_def js_def isDigit_def)

text \<open>The fragments that decode as the spec lists them, and a key that merely ends in
  \<open>page\<close> or \<open>q\<close> being read as that field.\<close>

lemma decode_partial_fragments:
  "decodeFragment (js ''page=42'') = Inr (Some (Finite 42), None)"
  "decodeFragment [] = Inr (None, None)"
  "decodeFragment (js ''q=abc'') = Inr (None, None)"
  "decodeFragment (js ''q=QQ%3D%3D&x=1&page=7'') = Inr (Some (Finite 7), Some (js ''A''))"
  "decodeFragment (js ''page=x'') = Inr (None, None)"
  by (simp_all add: js_eval decodeFragment_def freshView_def)

lemma decode_reads_keys_unanchored:
  "decodeFragment (js ''subpage=9&faq=QQ%3D%3D'') = Inr (Some (Finite 9), Some (js ''A''))"
  by (simp add: js_eval decodeFragment_def freshView_def)

section \<open>The fuzzy text locator\<close>

lemma buildMap_spec:
  "buildMap fs t m =
     (t @ concat fs, m @ map (\<lambda>i. length t + length (concat (take i fs))) [0..<length fs])"
proof (induction fs arbitrary: t m)
  case Nil
  show ?case by simp
next
  case (Cons f fs)
  have "map (\<lambda>i. length t + length (concat (take i (f # fs)))) [0..<Suc (length fs)] =
        length t # map (\<lambda>i. length (t @ f) + length (concat (take i fs))) [0..<length fs]"
    by (simp add: map_upt_Suc del: upt_Suc)
  then show ?case by (simp add: Cons.IH del: upt_Suc)
qed

lemma occursAt_Cons: "occursAt (c # cs) needle (Suc i) = occursAt cs needle i"
  by (simp add: occursAt_def)

lemma occursAt_0: "occursAt hay needle 0 \<longleftrightarrow> take (length needle) hay = needle"
proof
  assume "take (length needle) hay = needle"
  then have "length (take (length needle) hay) = length needle" by simp
  then have "length needle \<le> length hay" by simp
  then show "occursAt hay needle 0" using \<open>take (length needle) hay = needle\<close>
    by (simp add: occursAt_def)
qed (simp add: occursAt_def)

lemma find_mapped: "find P (map f xs) = map_option f (find (P \<circ> f) xs)"
  by (induction xs) simp_all

lemma find_upt_Suc:
  "find P [0..<Suc n] = (if P 0 then Some 0 else map_option Suc (find (P \<circ> Suc) [0..<n]))"
proof -
  have "[0..<Suc n] = 0 # map Suc [0..<n]" by (simp add: upt_conv_Cons map_Suc_upt del: upt_Suc)
  then show ?thesis by (simp add: find_mapped del: upt_Suc)
qed

lemma indexOf_first: "indexOf hay needle = firstOccurrence hay needle"
proof (induction hay)
  case Nil
  show ?case by (auto simp add: firstOccurrence_def occursAt_def)
next
  case (Cons c cs)
  have "occursAt (c # cs) needle \<circ> Suc = occursAt cs needle"
    by (rule ext) (simp add: occursAt_Cons)
  then show ?case
    using Cons by (simp add: firstOccurrence_def find_upt_Suc [of _ "Suc (length cs)"] occursAt_0 del: upt_Suc)
qed

lemma firstOccurrence_fits:
  assumes "firstOccurrence hay needle = Some idx"
  shows "idx + length needle \<le> length hay"
  using assms unfolding firstOccurrence_def by (auto simp add: find_Some_iff occursAt_def)

lemma originalOffset_exists:
  "k < length (stripWhitespace buf) \<Longrightarrow> \<exists>p. originalOffset buf k = Some p"
proof (induction buf arbitrary: k)
  case Nil
  then show ?case by (simp add: stripWhitespace_def)
next
  case (Cons c cs)
  show ?case
  proof (cases "isWhiteSpace c")
    case True
    with Cons show ?thesis by (simp add: stripWhitespace_def)
  next
    case False
    show ?thesis
    proof (cases k)
      case 0
      with False show ?thesis by simp
    next
      case (Suc j)
      with Cons False show ?thesis by (simp add: stripWhitespace_def)
    qed
  qed
qed

lemma originalOffset_mono:
  "originalOffset buf j = Some a \<Longrightarrow> originalOffset buf k = Some b \<Longrightarrow> j \<le> k \<Longrightarrow> a \<le> b"
proof (induction buf arbitrary: j k a b)
  case Nil
  then show ?case by simp
next
  case (Cons c cs)
  show ?case
  proof (cases "isWhiteSpace c")
    case True
    with Cons.prems obtain a' b' where "originalOffset cs j = Some a'" "originalOffset cs k = Some b'"
      "a = Suc a'" "b = Suc b'" by auto
    with Cons.IH [of j a' k b'] Cons.prems(3) show ?thesis by simp
  next
    case False
    show ?thesis
    proof (cases j)
      case 0
      with False Cons.prems show ?thesis by simp
    next
      case (Suc j')
      with Cons.prems(3) obtain k' where k: "k = Suc k'" "j' \<le> k'" by (cases k) auto
      with Suc False Cons.prems obtain a' b' where "originalOffset cs j' = Some a'"
        "originalOffset cs k' = Some b'" "a = Suc a'" "b = Suc b'" by auto
      with Cons.IH [of j' a' k' b'] k show ?thesis by simp
    qed
  qed
qed

lemma originalOffset_drop:
  assumes "originalOffset (drop i buf) k = Some p"
  shows "i < length buf" "drop i buf = buf ! i # drop (Suc i) buf"
proof -
  have "drop i buf \<noteq> []" using assms by auto
  then show "i < length buf" by simp
  then show "drop i buf = buf ! i # drop (Suc i) buf" by (simp add: Cons_nth_drop_Suc)
qed

lemma mapBack_spec:
  assumes "pos < idx + len" and "0 < len"
    and "originalOffset (drop i buf) (idx + len - 1 - pos) = Some b"
    and "pos \<le> idx \<Longrightarrow> originalOffset (drop i buf) (idx - pos) = Some a"
  shows "mapBack buf idx len i pos sc ec = ((if pos \<le> idx then i + a else sc), i + b + 1)"
  using assms
proof (induction buf idx len i pos sc ec arbitrary: a b rule: mapBack.induct)
  case (1 buf idx len i pos sc ec)
  note d = originalOffset_drop [OF "1.prems"(3)]
  define c where "c = buf ! i"
  define r where "r = drop (Suc i) buf"
  have dr: "drop i buf = c # r" using d(2) by (simp add: c_def r_def)
  have guard: "i < length buf \<and> pos \<le> idx + len" using d(1) "1.prems"(1) by simp
  show ?case
  proof (cases "isWhiteSpace c")
    case True
    from "1.prems"(3) True obtain b' where b: "originalOffset r (idx + len - 1 - pos) = Some b'" "b = Suc b'"
      by (auto simp add: dr)
    have a: "pos \<le> idx \<Longrightarrow> \<exists>a'. originalOffset r (idx - pos) = Some a' \<and> a = Suc a'"
      using "1.prems"(4) True by (auto simp add: dr)
    show ?thesis
    proof (cases "pos \<le> idx")
      case le: True
      then obtain a' where a': "originalOffset r (idx - pos) = Some a'" "a = Suc a'" using a by blast
      have "mapBack buf idx len (i + 1) pos sc ec = ((if pos \<le> idx then i + 1 + a' else sc), i + 1 + b' + 1)"
        using "1.IH"(2) [of b' a'] guard True "1.prems"(1,2) b(1) a'(1) by (simp add: c_def r_def)
      then show ?thesis
        using guard True le a'(2) b(2) by (simp add: mapBack.simps [of buf idx len i] c_def)
    next
      case gt: False
      have "mapBack buf idx len (i + 1) pos sc ec = ((if pos \<le> idx then i + 1 + a else sc), i + 1 + b' + 1)"
        using "1.IH"(2) [of b' a] guard True "1.prems"(1,2) b(1) gt by (simp add: c_def r_def)
      then show ?thesis
        using guard True gt b(2) by (simp add: mapBack.simps [of buf idx len i] c_def)
    qed
  next
    case False
    define sc' where "sc' = (if pos = idx then i else sc)"
    show ?thesis
    proof (cases "pos + 1 = idx + len")
      case True
      then have k0: "idx + len - 1 - pos = 0" by simp
      then have b0: "b = 0" using "1.prems"(3) False by (simp add: dr)
      have "pos \<le> idx \<Longrightarrow> pos = idx \<and> a = 0"
      proof -
        assume le: "pos \<le> idx"
        then have "pos = idx" using True "1.prems"(2) by simp
        moreover from this "1.prems"(4) False have "a = 0" by (simp add: dr)
        ultimately show ?thesis by simp
      qed
      then show ?thesis
        using guard False True b0 by (auto simp add: mapBack.simps [of buf idx len i] c_def Let_def)
    next
      case ne: False
      then obtain k' where k: "idx + len - 1 - pos = Suc k'" "k' = idx + len - 1 - (pos + 1)"
        using "1.prems"(1) by (cases "idx + len - 1 - pos") auto
      from "1.prems"(3) False k(1) obtain b' where b: "originalOffset r k' = Some b'" "b = Suc b'"
        by (auto simp add: dr)
      have p1: "pos + 1 < idx + len" using "1.prems"(1) ne by simp
      show ?thesis
      proof (cases "pos < idx")
        case lt: True
        then obtain j where j: "idx - pos = Suc j" "j = idx - (pos + 1)" by (cases "idx - pos") auto
        from "1.prems"(4) lt False j(1) obtain a' where a': "originalOffset r j = Some a'" "a = Suc a'"
          by (auto simp add: dr)
        have "mapBack buf idx len (i + 1) (pos + 1) sc ec =
              ((if pos + 1 \<le> idx then i + 1 + a' else sc), i + 1 + b' + 1)"
          using "1.IH"(1) [of sc b' a'] guard False ne lt p1 "1.prems"(2) b(1) a'(1) k(2) j(2)
          by (simp add: c_def r_def)
        then show ?thesis
          using guard False ne lt a'(2) b(2)
          by (simp add: mapBack.simps [of buf idx len i] c_def Let_def)
      next
        case ge: False
        have "mapBack buf idx len (i + 1) (pos + 1) sc' ec =
              ((if pos + 1 \<le> idx then i + 1 + a else sc'), i + 1 + b' + 1)"
          using "1.IH"(1) [of sc' b' a] guard False ne ge p1 "1.prems"(2) b(1) k(2)
          by (simp add: c_def r_def sc'_def)
        moreover have "pos \<le> idx \<Longrightarrow> pos = idx \<and> a = 0"
        proof -
          assume le: "pos \<le> idx"
          then have "pos = idx" using ge by simp
          moreover from this "1.prems"(4) False have "a = 0" by (simp add: dr)
          ultimately show ?thesis by simp
        qed
        ultimately show ?thesis
          using guard False ne ge b(2)
          by (auto simp add: mapBack.simps [of buf idx len i] c_def Let_def sc'_def)
      qed
    qed
  qed
qed

lemma textLayer_nonempty: "f \<in> set (textLayer elements) \<Longrightarrow> f \<noteq> []"
  by (auto simp add: textLayer_def trim_def trimEnd_def trimStart_def)

lemma markSpans_spec:
  assumes "\<forall>f \<in> set fs. f \<noteq> []" "s < e"
  shows "markSpans (map (\<lambda>i. length (concat (take i fs))) [0..<length fs]) (length (concat fs)) s e =
         map (\<lambda>i. overlaps (fragmentSpan fs i) (s, e)) [0..<length fs]"
proof -
  have ov: "overlaps (fragmentSpan fs i) (s, e) \<longleftrightarrow>
            s < length (concat (take i fs)) + length (fs ! i) \<and> length (concat (take i fs)) < e"
    if "i < length fs" for i
  proof -
    have "fs ! i \<noteq> []" using assms(1) that by simp
    then have "0 < length (fs ! i)" by simp
    then show ?thesis using assms(2) by (auto simp add: overlaps_def fragmentSpan_def)
  qed
  have t: "length (concat (take (Suc i) fs)) = length (concat (take i fs)) + length (fs ! i)"
    if "i < length fs" for i
    using that by (simp add: take_Suc_conv_app_nth)
  have A: "(s < length (concat (take (Suc i) fs)) \<and> length (concat (take i fs)) < e) =
           overlaps (fragmentSpan fs i) (s, e)" if "i < length fs" for i
    using that by (simp add: ov t)
  have B: "(s < length (concat fs) \<and> length (concat (take i fs)) < e) =
           overlaps (fragmentSpan fs i) (s, e)" if "i < length fs" "\<not> Suc i < length fs" for i
  proof -
    have "Suc i = length fs" using that by simp
    then have "concat fs = concat (take (Suc i) fs)" by simp
    then have "length (concat fs) = length (concat (take i fs)) + length (fs ! i)"
      using t [OF that(1)] by simp
    then show ?thesis using that(1) by (simp add: ov)
  qed
  show ?thesis using A B by (simp add: markSpans_def)
qed

lemma locate_refines:
  assumes ne: "\<forall>f \<in> set fs. f \<noteq> []"
    and q: "lc (stripWhitespace q) \<noteq> []"
    and lp: "length (lc (stripWhitespace (concat fs))) = length (stripWhitespace (concat fs))"
  shows "locate lc fs q = specLocate lc fs q"
proof -
  define buf where "buf = concat fs"
  define search where "search = lc (stripWhitespace q)"
  define starts where "starts = map (\<lambda>i. length (concat (take i fs))) [0..<length fs]"
  have bm: "buildMap fs [] [] = (buf, starts)"
    by (simp add: buildMap_spec buf_def starts_def)
  show ?thesis
  proof (cases "indexOf (lc (stripWhitespace buf)) search")
    case None
    then show ?thesis
      by (simp add: locate_def specLocate_def bm search_def buf_def specNormalize_def
          stripWhitespace_def indexOf_first [symmetric] Let_def)
  next
    case (Some idx)
    have len: "0 < length search" using q by (simp add: search_def)
    have "idx + length search \<le> length (lc (stripWhitespace buf))"
      using Some by (simp add: indexOf_first firstOccurrence_fits)
    then have fit: "idx + length search \<le> length (stripWhitespace buf)"
      using lp by (simp add: buf_def)
    have lt: "idx < length (stripWhitespace buf)"
      "idx + length search - 1 < length (stripWhitespace buf)"
      using fit len by linarith+
    obtain a where a: "originalOffset buf idx = Some a"
      using originalOffset_exists [OF lt(1)] by blast
    obtain b where b: "originalOffset buf (idx + length search - 1) = Some b"
      using originalOffset_exists [OF lt(2)] by blast
    have "idx \<le> idx + length search - 1" using len by linarith
    then have ab: "a \<le> b" by (rule originalOffset_mono [OF a b])
    have mb: "mapBack buf idx (length search) 0 0 0 (length buf) = (a, b + 1)"
      using mapBack_spec [of 0 idx "length search" 0 buf b a 0 "length buf"] a b len by simp
    have sp: "specSpan buf idx (length search) = (a, b + 1)"
      using a b len by (simp add: specSpan_def)
    have "markSpans starts (length buf) a (b + 1) =
          map (\<lambda>i. overlaps (fragmentSpan fs i) (a, b + 1)) [0..<length fs]"
      unfolding starts_def buf_def using markSpans_spec [OF ne, of a "b + 1"] ab by simp
    then have "locate lc fs q =
        Highlighted (map (\<lambda>i. overlaps (fragmentSpan fs i) (a, b + 1)) [0..<length fs])"
      using Some by (simp add: locate_def bm mb search_def [symmetric])
    moreover have "specLocate lc fs q =
        Highlighted (map (\<lambda>i. overlaps (fragmentSpan fs i) (a, b + 1)) [0..<length fs])"
      using Some sp
      by (simp add: specLocate_def specNormalize_def stripWhitespace_def [symmetric]
          buf_def [symmetric] search_def [symmetric] indexOf_first [symmetric] Let_def)
    ultimately show ?thesis by simp
  qed
qed

lemma locate_example:
  assumes "lc (js ''Helloworld'') = js ''helloworld''" "lc (stripWhitespace q) = js ''helloworld''"
  shows "locate lc [js ''Hel'', js ''lo wor'', js ''ld''] q = Highlighted [True, True, True]"
proof -
  have bm: "buildMap [js ''Hel'', js ''lo wor'', js ''ld''] [] [] = (js ''Hello world'', [0, 3, 9])"
    by (simp add: js_def)
  have sw: "stripWhitespace (js ''Hello world'') = js ''Helloworld''"
    by (simp add: stripWhitespace_def js_def isWhiteSpace_def)
  have io: "indexOf (js ''helloworld'') (js ''helloworld'') = Some 0"
    by (simp add: js_def)
  have mb: "mapBack (js ''Hello world'') 0 10 0 0 0 11 = (0, 11)"
    by (simp add: mapBack.simps js_def isWhiteSpace_def)
  have ms: "markSpans [0, 3, 9] 11 0 11 = [True, True, True]"
    by (simp add: markSpans_def upt_rec)
  have l: "length (js ''helloworld'') = 10" "length (js ''Hello world'') = 11" by (simp_all add: js_def)
  show ?thesis
    by (simp only: locate_def bm prod.case Let_def sw assms io option.case l mb ms)
qed


text \<open>
  What holds of the locator. For the fragments the filter of \<open>tryHighlight\<close> leaves, a query
  whose normalized form is not empty, and a lower-casing that keeps the length of the
  stripped text: the code marks what the locator of the spec marks, that is, it takes the leftmost
  occurrence of the stripped, lower-cased query in the stripped, lower-cased concatenation,
  maps its first and last character back to offsets of the concatenation by counting the
  characters that are not whitespace, and marks exactly the fragments whose span overlaps
  the span from the first to the last. In particular the fragments \<open>Hel\<close>, \<open>lo wor\<close>,
  \<open>ld\<close> are all marked for every query that normalizes to \<open>helloworld\<close>.
\<close>

lemma fuzzy_locate:
  "(lc (stripWhitespace q) \<noteq> [] \<and>
    length (lc (stripWhitespace (concat (textLayer elements)))) =
      length (stripWhitespace (concat (textLayer elements))) \<longrightarrow>
    locate lc (textLayer elements) q = specLocate lc (textLayer elements) q) \<and>
   (lc (js ''Helloworld'') = js ''helloworld'' \<and> lc (stripWhitespace q') = js ''helloworld'' \<longrightarrow>
    locate lc [js ''Hel'', js ''lo wor'', js ''ld''] q' = Highlighted [True, True, True])"
proof -
  have "\<forall>f \<in> set (textLayer elements). f \<noteq> []" using textLayer_nonempty by blast
  then show ?thesis using locate_refines [of "textLayer elements" lc q] locate_example [of lc q']
    by blast
qed

lemmas hl_eval = js_def isWhiteSpace_def stripWhitespace_def asciiLowerCase_def textLayer_def
  trim_def trimStart_def trimEnd_def

lemma fuzzy_locate_examples:
  "locate asciiLowerCase (textLayer helloLayer) (js ''HELLO   World'') = Highlighted [True, True, True] \<and>
   specLocate asciiLowerCase (textLayer helloLayer) (js ''o W'') = Highlighted [False, True, False] \<and>
   locate asciiLowerCase (textLayer helloLayer) (js ''o W'') = Highlighted [False, True, False]"
proof -
  have tl: "textLayer helloLayer = [js ''Hel'', js ''lo wor'', js ''ld'']"
    by (simp add: helloLayer_def hl_eval)
  have h1: "asciiLowerCase (js ''Helloworld'') = js ''helloworld'' \<and>
            asciiLowerCase (stripWhitespace (js ''HELLO   World'')) = js ''helloworld''"
    by (simp add: hl_eval)
  have h2: "asciiLowerCase (stripWhitespace (js ''o W'')) \<noteq> [] \<and>
    length (asciiLowerCase (stripWhitespace (concat (textLayer helloLayer)))) =
      length (stripWhitespace (concat (textLayer helloLayer)))"
    by (simp add: asciiLowerCase_def) (simp add: hl_eval)
  have s: "specLocate asciiLowerCase [js ''Hel'', js ''lo wor'', js ''ld''] (js ''o W'') =
           Highlighted [False, True, False]"
    by (simp add: specLocate_def specNormalize_def firstOccurrence_def occursAt_def specSpan_def
        overlaps_def fragmentSpan_def Let_def upt_rec hl_eval)
  from fuzzy_locate [of asciiLowerCase "js ''o W''" helloLayer "js ''HELLO   World''"] h1 h2
  show ?thesis by (simp add: tl s)
qed


text \<open>
  C4. The failing case. The link fragment \<open>page=1&q=ICAg\<close> carries a quote of three
  spaces; \<open>setEphemeralState\<close> makes it the pending highlight, the string is truthy in the
  iframe script, and \<open>highlightText\<close> is called with it. Its normalized form is empty and is
  found at index 0, a match with an empty span, which no fragment overlaps. The loop of
  the code never meets \<open>pos === idx + search.length - 1\<close>, so \<open>endChar\<close> keeps its initial
  value \<open>text.length\<close>, and every fragment of the text layer is marked.
\<close>

theorem blank_query_marks_everything:
  "decodeFragment (js ''page=1&q=ICAg'') = Inr (Some (Finite 1), Some (js ''   '')) \<and>
   wantsHighlight (Some (js ''   '')) \<and>
   locate asciiLowerCase [js ''ab'', js ''cd''] (js ''   '') = Highlighted [True, True] \<and>
   specLocate asciiLowerCase [js ''ab'', js ''cd''] (js ''   '') = Highlighted [False, False]"
proof -
  have df: "decodeFragment (js ''page=1&q=ICAg'') = Inr (Some (Finite 1), Some (js ''   ''))"
    by (simp add: js_eval decodeFragment_def freshView_def)
  have wh: "wantsHighlight (Some (js ''   ''))" by (simp add: wantsHighlight_def js_def)
  have bm: "buildMap [js ''ab'', js ''cd''] [] [] = (js ''abcd'', [0, 2])"
    by (simp add: js_def)
  have n: "asciiLowerCase (stripWhitespace (js ''   '')) = []"
    "asciiLowerCase (stripWhitespace (js ''abcd'')) = js ''abcd''"
    by (simp_all add: hl_eval)
  have io: "indexOf (js ''abcd'') [] = Some 0" by (simp add: js_def)
  have l: "length ([]::nat list) = 0" "length (js ''abcd'') = 4" by (simp_all add: js_def)
  have mb: "mapBack (js ''abcd'') 0 0 0 0 0 4 = (0, 4)"
    by (simp add: mapBack.simps js_def isWhiteSpace_def)
  have ms: "markSpans [0, 2] 4 0 4 = [True, True]"
    by (simp add: markSpans_def upt_rec)
  have "locate asciiLowerCase [js ''ab'', js ''cd''] (js ''   '') = Highlighted [True, True]"
    by (simp only: locate_def bm prod.case Let_def n io option.case l mb ms)
  moreover have "specLocate asciiLowerCase [js ''ab'', js ''cd''] (js ''   '') = Highlighted [False, False]"
    by (simp add: specLocate_def specNormalize_def firstOccurrence_def occursAt_def specSpan_def
        overlaps_def fragmentSpan_def Let_def upt_rec hl_eval)
  ultimately show ?thesis using df wh by simp
qed

section \<open>The retry loop of highlightText\<close>

lemma tryHighlight_runs:
  assumes "tryHighlight lc spansAt q a = (r, timers)" "a \<le> 20"
  shows "a + length timers \<le> 20 \<and> set timers \<subseteq> {300} \<and>
         (\<forall>k < length timers. textLayer (spansAt (a + k)) = []) \<and>
         (textLayer (spansAt (a + length timers)) = [] \<longrightarrow> r = GaveUp \<and> a + length timers = 20) \<and>
         (textLayer (spansAt (a + length timers)) \<noteq> [] \<longrightarrow>
            r = locate lc (textLayer (spansAt (a + length timers))) q)"
  using assms
proof (induction lc spansAt q a arbitrary: r timers rule: tryHighlight.induct)
  case (1 lc spansAt q a)
  show ?case
  proof (cases "textLayer (spansAt a) = []")
    case False
    with "1.prems" show ?thesis by (simp add: tryHighlight.simps [of lc spansAt q a] Let_def)
  next
    case True
    show ?thesis
    proof (cases "a < 20")
      case False
      with True "1.prems" show ?thesis by (simp add: tryHighlight.simps [of lc spansAt q a] Let_def)
    next
      case lt: True
      obtain r' ts where rec: "tryHighlight lc spansAt q (a + 1) = (r', ts)" by fastforce
      with True lt "1.prems"(1) have eq: "r = r'" "timers = 300 # ts"
        by (simp_all add: tryHighlight.simps [of lc spansAt q a] Let_def)
      have ih: "a + 1 + length ts \<le> 20 \<and> set ts \<subseteq> {300} \<and>
         (\<forall>k < length ts. textLayer (spansAt (a + 1 + k)) = []) \<and>
         (textLayer (spansAt (a + 1 + length ts)) = [] \<longrightarrow> r' = GaveUp \<and> a + 1 + length ts = 20) \<and>
         (textLayer (spansAt (a + 1 + length ts)) \<noteq> [] \<longrightarrow>
            r' = locate lc (textLayer (spansAt (a + 1 + length ts))) q)"
        using "1.IH" [OF refl True lt rec] lt by simp
      have "\<forall>k < length timers. textLayer (spansAt (a + k)) = []"
      proof (intro allI impI)
        fix k assume "k < length timers"
        then show "textLayer (spansAt (a + k)) = []"
          using ih True eq(2) by (cases k) auto
      qed
      moreover have "a + length timers = a + 1 + length ts" using eq(2) by simp
      ultimately show ?thesis using ih eq by simp
    qed
  qed
qed

lemma locate_not_found:
  assumes "indexOf (lc (stripWhitespace (concat fs))) (lc (stripWhitespace q)) = None"
  shows "locate lc fs q = NotFound"
  using assms by (simp add: locate_def buildMap_spec Let_def)


text \<open>
  C5. \<open>highlightText\<close> sets at most 20 timers, each of 300 ms, and each only after a run
  that found no fragment (so it runs at most 21 times); it gives up, silently, exactly
  when the 21st run still finds none; otherwise its outcome is that of the first run that
  finds fragments, and no timer is set after that run. When fragments are there at the
  first run and the normalized query does not occur, the outcome is not-found with no
  timer at all.
\<close>

theorem bounded_highlight_retry:
  "(case highlightText lc spansAt q of
      (r, timers) \<Rightarrow>
        length timers \<le> 20 \<and> set timers \<subseteq> {300} \<and>
        (\<forall>k < length timers. textLayer (spansAt k) = []) \<and>
        (textLayer (spansAt (length timers)) = [] \<longrightarrow> r = GaveUp \<and> length timers = 20) \<and>
        (textLayer (spansAt (length timers)) \<noteq> [] \<longrightarrow>
           r = locate lc (textLayer (spansAt (length timers))) q)) \<and>
   (textLayer (spansAt 0) \<noteq> [] \<and>
    indexOf (lc (stripWhitespace (concat (textLayer (spansAt 0))))) (lc (stripWhitespace q)) = None
    \<longrightarrow> highlightText lc spansAt q = (NotFound, []))"
proof -
  obtain r timers where h: "highlightText lc spansAt q = (r, timers)" by fastforce
  then have "tryHighlight lc spansAt q 0 = (r, timers)" by (simp add: highlightText_def)
  from tryHighlight_runs [OF this] have 1: "length timers \<le> 20 \<and> set timers \<subseteq> {300} \<and>
        (\<forall>k < length timers. textLayer (spansAt k) = []) \<and>
        (textLayer (spansAt (length timers)) = [] \<longrightarrow> r = GaveUp \<and> length timers = 20) \<and>
        (textLayer (spansAt (length timers)) \<noteq> [] \<longrightarrow>
           r = locate lc (textLayer (spansAt (length timers))) q)"
    by simp
  have 2: "highlightText lc spansAt q = (NotFound, [])"
    if "textLayer (spansAt 0) \<noteq> []"
      "indexOf (lc (stripWhitespace (concat (textLayer (spansAt 0))))) (lc (stripWhitespace q)) = None"
    using that locate_not_found [OF that(2)]
    by (simp add: highlightText_def tryHighlight.simps [of lc spansAt q 0] Let_def)
  have 3: "textLayer (spansAt 0) \<noteq> [] \<and>
    indexOf (lc (stripWhitespace (concat (textLayer (spansAt 0))))) (lc (stripWhitespace q)) = None
    \<longrightarrow> highlightText lc spansAt q = (NotFound, [])"
    using 2 by blast
  show ?thesis
    unfolding h prod.case using 1 3 [unfolded h] by blast
qed

theorem bounded_highlight_retry_witness:
  "fst (highlightText asciiLowerCase (\<lambda>k. []) (js ''hello'')) = GaveUp \<and>
   length (snd (highlightText asciiLowerCase (\<lambda>k. []) (js ''hello''))) = 20 \<and>
   highlightText asciiLowerCase (\<lambda>k. helloLayer) (js ''xyz'') = (NotFound, [])"
proof -
  have tl: "textLayer helloLayer = [js ''Hel'', js ''lo wor'', js ''ld'']" "textLayer [] = []"
    by (simp_all add: helloLayer_def hl_eval)
  have nf: "indexOf (asciiLowerCase (stripWhitespace (concat [js ''Hel'', js ''lo wor'', js ''ld''])))
      (asciiLowerCase (stripWhitespace (js ''xyz''))) = None"
    by (simp add: hl_eval)
  have a: "highlightText asciiLowerCase (\<lambda>k. helloLayer) (js ''xyz'') = (NotFound, [])"
    using bounded_highlight_retry [where lc = asciiLowerCase and spansAt = "\<lambda>k. helloLayer"
        and q = "js ''xyz''"] nf
    by (simp add: tl)
  have b: "fst (highlightText asciiLowerCase (\<lambda>k. []) (js ''hello'')) = GaveUp \<and>
   length (snd (highlightText asciiLowerCase (\<lambda>k. []) (js ''hello''))) = 20"
    using bounded_highlight_retry [where lc = asciiLowerCase and spansAt = "\<lambda>k. []"
        and q = "js ''hello''"]
    by (simp add: tl split: prod.splits)
  from a b show ?thesis by simp
qed

end
